theory Spec2Isabelle
  imports Main "HOL-Library.Sublist" "HOL-Library.AList" "HOL-Library.Char_ord" "HOL-Library.List_Lexorder"
begin

section \<open>Values shared by both stores\<close>

text \<open>
  Byte slices (\<^verbatim>\<open>[]byte\<close>, \<^verbatim>\<open>json.RawMessage\<close>) and Go strings are lists of 8-bit
  characters. A path inside the file system is the list of its components, counted from
  the file system's root.
\<close>

type_synonym bytes = string
type_synonym path = "string list"

text \<open>
  Errors are values. \<open>ErrFileNotFound\<close> is the store's own typed error; the others are
  the conditions the operating system reports (\<open>ENOENT\<close> is the one \<^verbatim>\<open>os.IsNotExist\<close>
  recognises), the error of \<^verbatim>\<open>filepath.Rel\<close>, a JSON coding error, and the run-time
  panic of an index out of range, which like an error ends the running operation.
\<close>

datatype error =
    ErrFileNotFound string
  | ENOENT
  | ENOTDIR
  | EISDIR
  | ENOTEMPTY
  | EPERM
  | ErrRel
  | ErrJSON
  | PanicIndexOutOfRange

definition IsNotExist :: "error \<Rightarrow> bool" where
  "IsNotExist e = (e = ENOENT)"

section \<open>The string and path functions of Go's library\<close>

definition HasPrefix :: "string \<Rightarrow> string \<Rightarrow> bool" where
  "HasPrefix s pre = prefix pre s"

text \<open>\<^verbatim>\<open>strings.SplitN(s, sep, 2)\<close> for a one-character separator: at most two pieces.\<close>

definition SplitN2 :: "string \<Rightarrow> char \<Rightarrow> string list" where
  "SplitN2 s sep =
     (case dropWhile (\<lambda>c. c \<noteq> sep) s of
        [] \<Rightarrow> [s]
      | _ # rest \<Rightarrow> [takeWhile (\<lambda>c. c \<noteq> sep) s, rest])"

text \<open>Splitting at every separator \<^verbatim>\<open>/\<close>, and joining with it.\<close>

fun split_sep :: "string \<Rightarrow> string list" where
  "split_sep [] = [[]]"
| "split_sep (c # cs) =
     (if c = CHR ''/'' then [] # split_sep cs
      else (case split_sep cs of w # ws \<Rightarrow> (c # w) # ws | [] \<Rightarrow> [[c]]))"

fun join_sep :: "string list \<Rightarrow> string" where
  "join_sep [] = []"
| "join_sep [c] = c"
| "join_sep (c # d # cs) = c @ CHR ''/'' # join_sep (d # cs)"

text \<open>
  \<^verbatim>\<open>filepath.Clean\<close>: empty and \<^verbatim>\<open>.\<close> elements go, \<^verbatim>\<open>..\<close> removes the element before it,
  is dropped at the root of a rooted path and kept at the front of a relative one.
\<close>

definition clean_step :: "bool \<Rightarrow> string list \<Rightarrow> string \<Rightarrow> string list" where
  "clean_step rooted out c =
     (if c = [] \<or> c = ''.'' then out
      else if c = ''..'' then
        (if out \<noteq> [] \<and> last out \<noteq> ''..'' then butlast out
         else if rooted then out
         else out @ [''..''])
      else out @ [c])"

definition clean_elems :: "bool \<Rightarrow> string list \<Rightarrow> string list" where
  "clean_elems rooted cs = foldl (clean_step rooted) [] cs"

definition Clean :: "string \<Rightarrow> string" where
  "Clean s =
     (if s = [] then ''.''
      else let rooted = (hd s = CHR ''/'');
               out = clean_elems rooted (split_sep s)
           in if rooted then CHR ''/'' # join_sep out
              else if out = [] then ''.''
              else join_sep out)"

definition Join :: "string list \<Rightarrow> string" where
  "Join elem =
     (case dropWhile (\<lambda>e. e = []) elem of
        [] \<Rightarrow> []
      | es \<Rightarrow> Clean (join_sep es))"

definition Dir :: "string \<Rightarrow> string" where
  "Dir p = Clean (rev (dropWhile (\<lambda>c. c \<noteq> CHR ''/'') (rev p)))"

definition Base :: "string \<Rightarrow> string" where
  "Base p =
     (if p = [] then ''.''
      else let q = dropWhile (\<lambda>c. c = CHR ''/'') (rev p);
               b = rev (takeWhile (\<lambda>c. c \<noteq> CHR ''/'') q)
           in if b = [] then ''/'' else b)"

text \<open>
  \<^verbatim>\<open>filepath.Rel\<close> compares the cleaned paths element by element, and fails when one path
  is rooted and the other is not, or when the first differing element of the base is \<^verbatim>\<open>..\<close>.
\<close>

definition elems :: "string \<Rightarrow> string list" where
  "elems s = (if s = [] then [] else if s = ''/'' then [[]] else split_sep s)"

fun strip_common :: "string list \<Rightarrow> string list \<Rightarrow> string list \<times> string list" where
  "strip_common (b # bs) (t # ts) =
     (if b = t then strip_common bs ts else (b # bs, t # ts))"
| "strip_common bs ts = (bs, ts)"

definition Rel :: "string \<Rightarrow> string \<Rightarrow> error + string" where
  "Rel basepath targpath =
     (let base = Clean basepath; targ = Clean targpath
      in if targ = base then Inr ''.''
         else let base = (if base = ''.'' then [] else base)
              in if (base \<noteq> [] \<and> hd base = CHR ''/'') \<noteq> (targ \<noteq> [] \<and> hd targ = CHR ''/'')
                 then Inl ErrRel
                 else (case strip_common (elems base) (elems targ) of
                         (bs, ts) \<Rightarrow>
                           if bs \<noteq> [] \<and> ts \<noteq> [] \<and> hd bs = ''..'' then Inl ErrRel
                           else Inr (join_sep (map (\<lambda>_. ''..'') bs @ ts))))"

section \<open>The file system\<close>

text \<open>
  The file system holds directories and regular files (no links, devices or pipes), each
  under the component list of its path; the root directory always exists. Relative paths
  are resolved from the root. \<open>immutable\<close> lists the paths whose entry the operating
  system refuses to unlink or overwrite: it is how a removal or a write can fail on a file
  that is there.
\<close>

datatype node = Directory | Regular bytes

record filesys =
  nodes :: "(path \<times> node) list"
  immutable :: "path list"

definition IsDir :: "node \<Rightarrow> bool" where
  "IsDir n = (n = Directory)"

definition IsRegular :: "node \<Rightarrow> bool" where
  "IsRegular n = (case n of Regular _ \<Rightarrow> True | Directory \<Rightarrow> False)"

definition pathOf :: "string \<Rightarrow> path" where
  "pathOf s = clean_elems True (split_sep s)"

definition node_at :: "filesys \<Rightarrow> path \<Rightarrow> node option" where
  "node_at fs p = (if p = [] then Some Directory else map_of (nodes fs) p)"

definition put_node :: "path \<Rightarrow> node \<Rightarrow> filesys \<Rightarrow> filesys" where
  "put_node p n fs = fs\<lparr>nodes := AList.update p n (nodes fs)\<rparr>"

text \<open>Path lookup walks down from the root: every component but the last names a directory.\<close>

fun namei :: "filesys \<Rightarrow> path \<Rightarrow> path \<Rightarrow> error + node" where
  "namei fs p [] = (case node_at fs p of None \<Rightarrow> Inl ENOENT | Some n \<Rightarrow> Inr n)"
| "namei fs p (c # cs) =
     (case node_at fs p of
        None \<Rightarrow> Inl ENOENT
      | Some Directory \<Rightarrow> namei fs (p @ [c]) cs
      | Some (Regular _) \<Rightarrow> Inl ENOTDIR)"

definition Lstat :: "filesys \<Rightarrow> string \<Rightarrow> error + node" where
  "Lstat fs s = namei fs [] (pathOf s)"

text \<open>Without links \<^verbatim>\<open>os.Stat\<close> is \<^verbatim>\<open>os.Lstat\<close>; \<^verbatim>\<open>os.Open\<close> yields the node it opened.\<close>

definition Stat :: "filesys \<Rightarrow> string \<Rightarrow> error + node" where
  "Stat fs s = Lstat fs s"

definition Open :: "filesys \<Rightarrow> string \<Rightarrow> error + node" where
  "Open fs s = Lstat fs s"

text \<open>Reading an open node to its end: a directory cannot be read as a byte stream.\<close>

definition read_all :: "node \<Rightarrow> error + bytes" where
  "read_all n = (case n of Regular b \<Rightarrow> Inr b | Directory \<Rightarrow> Inl EISDIR)"

definition ReadFile :: "filesys \<Rightarrow> string \<Rightarrow> error + bytes" where
  "ReadFile fs s = (case Open fs s of Inl e \<Rightarrow> Inl e | Inr n \<Rightarrow> read_all n)"

text \<open>
  \<^verbatim>\<open>os.MkdirAll\<close> makes the directory and every missing parent, and fails where a regular
  file is in the way.
\<close>

fun mkdirs :: "filesys \<Rightarrow> path list \<Rightarrow> error option \<times> filesys" where
  "mkdirs fs [] = (None, fs)"
| "mkdirs fs (q # qs) =
     (case node_at fs q of
        None \<Rightarrow> mkdirs (put_node q Directory fs) qs
      | Some Directory \<Rightarrow> mkdirs fs qs
      | Some (Regular _) \<Rightarrow> (Some ENOTDIR, fs))"

definition MkdirAll :: "filesys \<Rightarrow> string \<Rightarrow> error option \<times> filesys" where
  "MkdirAll fs s = mkdirs fs (prefixes (pathOf s))"

text \<open>
  \<^verbatim>\<open>os.Create\<close> opens for writing, creating or truncating: the parent must be a directory
  that is there, the path itself no directory and not immutable. The handle it returns is
  the path of the file; \<open>write_handle\<close> is a write of the whole contents through it.
\<close>

definition Create :: "filesys \<Rightarrow> string \<Rightarrow> (error + path) \<times> filesys" where
  "Create fs s =
     (let p = pathOf s
      in case namei fs [] (butlast p) of
           Inl e \<Rightarrow> (Inl e, fs)
         | Inr (Regular _) \<Rightarrow> (Inl ENOTDIR, fs)
         | Inr Directory \<Rightarrow>
             (case node_at fs p of
                Some Directory \<Rightarrow> (Inl EISDIR, fs)
              | _ \<Rightarrow> if p \<in> set (immutable fs) then (Inl EPERM, fs)
                     else (Inr p, put_node p (Regular []) fs)))"

definition write_handle :: "path \<Rightarrow> bytes \<Rightarrow> filesys \<Rightarrow> filesys" where
  "write_handle h b fs = put_node h (Regular b) fs"

definition WriteFile :: "filesys \<Rightarrow> string \<Rightarrow> bytes \<Rightarrow> error option \<times> filesys" where
  "WriteFile fs s b =
     (case Create fs s of
        (Inl e, fs') \<Rightarrow> (Some e, fs')
      | (Inr h, fs') \<Rightarrow> (None, write_handle h b fs'))"

text \<open>\<^verbatim>\<open>os.Remove\<close> unlinks a file or an empty directory.\<close>

definition has_children :: "filesys \<Rightarrow> path \<Rightarrow> bool" where
  "has_children fs p = list_ex (\<lambda>(q, n). strict_prefix p q) (nodes fs)"

definition del_node :: "path \<Rightarrow> filesys \<Rightarrow> filesys" where
  "del_node p fs = fs\<lparr>nodes := AList.delete p (nodes fs)\<rparr>"

definition Remove :: "filesys \<Rightarrow> string \<Rightarrow> error option \<times> filesys" where
  "Remove fs s =
     (let p = pathOf s
      in case namei fs [] p of
           Inl e \<Rightarrow> (Some e, fs)
         | Inr n \<Rightarrow>
             if p = [] \<or> p \<in> set (immutable fs) then (Some EPERM, fs)
             else if IsDir n \<and> has_children fs p then (Some ENOTEMPTY, fs)
             else (None, del_node p fs))"

text \<open>
  \<^verbatim>\<open>os.RemoveAll\<close> removes the path and all below it; a path that is not there is no error.
  It removes what it can: an immutable entry stays, with the directories above it, and is
  reported.
\<close>

definition RemoveAll :: "filesys \<Rightarrow> string \<Rightarrow> error option \<times> filesys" where
  "RemoveAll fs s =
     (let p = pathOf s
      in case namei fs [] p of
           Inl e \<Rightarrow> if IsNotExist e then (None, fs) else (Some e, fs)
         | Inr n \<Rightarrow>
             (let kept = filter (\<lambda>q. prefix p q \<and> node_at fs q \<noteq> None) (immutable fs)
              in if kept = [] then
                   (None, fs\<lparr>nodes := filter (\<lambda>(q, n). \<not> prefix p q) (nodes fs)\<rparr>)
                 else
                   (Some EPERM,
                    fs\<lparr>nodes := filter (\<lambda>(q, n). \<not> prefix p q \<or> list_ex (prefix q) kept)
                                       (nodes fs)\<rparr>)))"

text \<open>\<^verbatim>\<open>ioutil.ReadDir\<close>: the names in a directory, sorted.\<close>

definition ReadDir :: "filesys \<Rightarrow> string \<Rightarrow> error + string list" where
  "ReadDir fs s =
     (let p = pathOf s
      in case namei fs [] p of
           Inl e \<Rightarrow> Inl e
         | Inr (Regular _) \<Rightarrow> Inl ENOTDIR
         | Inr Directory \<Rightarrow>
             Inr (sort (remdups (map (\<lambda>(q, n). last q)
                    (filter (\<lambda>(q, n). q \<noteq> [] \<and> butlast q = p) (nodes fs))))))"

text \<open>
  \<^verbatim>\<open>filepath.Walk\<close> calls the function on the root and then on everything below it, a
  directory before its contents and the names of a directory in sorted order, which is
  the lexicographic order of the component lists. A root it cannot stat is passed to the
  function with the error: the function gets either that error or the file's info, the
  one value \<open>error + node\<close>. The walk visits the tree it found when it started, and stats
  each entry when it comes to it; it stops at the first error the function returns.
\<close>

type_synonym WalkFunc =
  "string \<Rightarrow> error + node \<Rightarrow> filesys \<Rightarrow> error option \<times> filesys"

definition subtree :: "filesys \<Rightarrow> path \<Rightarrow> path list" where
  "subtree fs p =
     sort (remdups (map (drop (length p)) (filter (strict_prefix p) (map fst (nodes fs)))))"

definition walk_name :: "string \<Rightarrow> path \<Rightarrow> string" where
  "walk_name root q = foldl (\<lambda>p name. Join [p, name]) root q"

fun walk_entries :: "string \<Rightarrow> WalkFunc \<Rightarrow> path list \<Rightarrow> filesys \<Rightarrow> error option \<times> filesys" where
  "walk_entries root fn [] fs = (None, fs)"
| "walk_entries root fn (q # qs) fs =
     (let filename = walk_name root q
      in case fn filename (Lstat fs filename) fs of
           (Some e, fs') \<Rightarrow> (Some e, fs')
         | (None, fs') \<Rightarrow> walk_entries root fn qs fs')"

definition Walk :: "string \<Rightarrow> WalkFunc \<Rightarrow> filesys \<Rightarrow> error option \<times> filesys" where
  "Walk root fn fs =
     (case Lstat fs root of
        Inl e \<Rightarrow> fn root (Inl e) fs
      | Inr info \<Rightarrow>
          if \<not> IsDir info then fn root (Inr info) fs
          else (case fn root (Inr info) fs of
                  (Some e, fs') \<Rightarrow> (Some e, fs')
                | (None, fs') \<Rightarrow> walk_entries root fn (subtree fs (pathOf root)) fs'))"

section \<open>Types declared outside \<^verbatim>\<open>local_store.go\<close>\<close>

text \<open>
  \<^verbatim>\<open>data.Hashes\<close> maps an algorithm to a hash value; the store only ranges over it and
  calls \<^verbatim>\<open>String()\<close> on each value. It is modelled as the list, in range order, of the
  pairs of an algorithm and the string of its value. \<^verbatim>\<open>HexBytes.String()\<close> is a hex
  encoding: \<open>hex_hashes\<close> says that every value string of a hash set is one.
\<close>

type_synonym Hashes = "(string \<times> string) list"

definition hash_values :: "(string \<rightharpoonup> Hashes) \<Rightarrow> string \<Rightarrow> Hashes" where
  "hash_values hashes p = (case hashes p of None \<Rightarrow> [] | Some hs \<Rightarrow> hs)"

definition is_hex :: "string \<Rightarrow> bool" where
  "is_hex s = list_all (\<lambda>c. c \<in> set ''0123456789abcdef'') s"

definition hex_hashes :: "(string \<rightharpoonup> Hashes) \<Rightarrow> bool" where
  "hex_hashes hashes = (\<forall>p hs. hashes p = Some hs \<longrightarrow> list_all (\<lambda>(alg, h). is_hex h) hs)"

text \<open>
  \<^verbatim>\<open>data.Key\<close> is used through its identifier and its JSON coding only; they are the
  fields of a \<open>key_codec\<close>, which the key operations take as a parameter.
\<close>

record 'k key_codec =
  ID :: "'k \<Rightarrow> string"
  MarshalIndent :: "'k \<Rightarrow> error + bytes"
  Decode :: "bytes \<Rightarrow> error + 'k"

text \<open>
  Modelled from the spec: \<^verbatim>\<open>topLevelManifests\<close>, the recognised top-level manifest
  names (root, targets, snapshot, timestamp), is declared outside \<^verbatim>\<open>local_store.go\<close>.
  \<open>GetMeta\<close> takes the list as a parameter.
\<close>

definition topLevelManifests :: "string list" where
  "topLevelManifests = [''root.json'', ''targets.json'', ''snapshot.json'', ''timestamp.json'']"

section \<open>The memory store\<close>

record 'k memoryStore =
  meta :: "string \<rightharpoonup> bytes"
  files :: "string \<rightharpoonup> bytes"
  keys :: "string \<rightharpoonup> 'k list"

definition MemoryStore :: "(string \<rightharpoonup> bytes) option \<Rightarrow> (string \<rightharpoonup> bytes) \<Rightarrow> 'k memoryStore" where
  "MemoryStore meta0 files0 =
     \<lparr>meta = (case meta0 of None \<Rightarrow> Map.empty | Some m \<Rightarrow> m),
      files = files0,
      keys = Map.empty\<rparr>"

definition memoryStore_GetMeta :: "'k memoryStore \<Rightarrow> error + (string \<rightharpoonup> bytes)" where
  "memoryStore_GetMeta m = Inr (meta m)"

definition memoryStore_SetMeta ::
    "string \<Rightarrow> bytes \<Rightarrow> 'k memoryStore \<Rightarrow> error option \<times> 'k memoryStore" where
  "memoryStore_SetMeta name b m = (None, m\<lparr>meta := (meta m)(name \<mapsto> b)\<rparr>)"

definition memoryStore_GetStagedTarget :: "string \<Rightarrow> 'k memoryStore \<Rightarrow> error + bytes" where
  "memoryStore_GetStagedTarget path m =
     (case files m path of
        None \<Rightarrow> Inl (ErrFileNotFound path)
      | Some d \<Rightarrow> Inr d)"

definition memoryStore_Commit ::
    "(string \<rightharpoonup> bytes) \<Rightarrow> bool \<Rightarrow> (string \<rightharpoonup> Hashes) \<Rightarrow> 'k memoryStore
       \<Rightarrow> error option \<times> 'k memoryStore" where
  "memoryStore_Commit meta0 consistentSnapshot hashes m = (None, m)"

text \<open>A role with no entry reads as the nil slice, the empty list.\<close>

definition keys_at :: "'k memoryStore \<Rightarrow> string \<Rightarrow> 'k list" where
  "keys_at m role = (case keys m role of None \<Rightarrow> [] | Some ks \<Rightarrow> ks)"

definition memoryStore_GetKeys :: "string \<Rightarrow> 'k memoryStore \<Rightarrow> error + 'k list" where
  "memoryStore_GetKeys role m = Inr (keys_at m role)"

definition memoryStore_SaveKey ::
    "string \<Rightarrow> 'k \<Rightarrow> 'k memoryStore \<Rightarrow> error option \<times> 'k memoryStore" where
  "memoryStore_SaveKey role key m =
     (let m1 = (case keys m role of
                  None \<Rightarrow> m\<lparr>keys := (keys m)(role \<mapsto> [])\<rparr>
                | Some ks \<Rightarrow> m)
      in (None, m1\<lparr>keys := (keys m1)(role \<mapsto> keys_at m1 role @ [key])\<rparr>))"

definition memoryStore_Clean :: "'k memoryStore \<Rightarrow> error option \<times> 'k memoryStore" where
  "memoryStore_Clean m = (None, m)"

section \<open>The file system store\<close>

record fileSystemStore =
  dir :: string

definition FileSystemStore :: "string \<Rightarrow> fileSystemStore" where
  "FileSystemStore d = \<lparr>dir = d\<rparr>"

definition repoDir :: "fileSystemStore \<Rightarrow> string" where
  "repoDir f = Join [dir f, ''repository'']"

definition stagedDir :: "fileSystemStore \<Rightarrow> string" where
  "stagedDir f = Join [dir f, ''staged'']"

definition notExists :: "filesys \<Rightarrow> string \<Rightarrow> bool" where
  "notExists fs path = (case Stat fs path of Inl e \<Rightarrow> IsNotExist e | Inr info \<Rightarrow> False)"

fun GetMeta_loop ::
    "fileSystemStore \<Rightarrow> string list \<Rightarrow> (string \<rightharpoonup> bytes) \<Rightarrow> filesys \<Rightarrow> error + (string \<rightharpoonup> bytes)" where
  "GetMeta_loop f [] meta0 fs = Inr meta0"
| "GetMeta_loop f (name # names) meta0 fs =
     (let path = Join [stagedDir f, name];
          found = (if notExists fs path
                   then (let path = Join [repoDir f, name]
                         in if notExists fs path then None else Some path)
                   else Some path)
      in case found of
           None \<Rightarrow> GetMeta_loop f names meta0 fs
         | Some path \<Rightarrow>
             (case ReadFile fs path of
                Inl e \<Rightarrow> Inl e
              | Inr b \<Rightarrow> GetMeta_loop f names (meta0(name \<mapsto> b)) fs))"

definition fileSystemStore_GetMeta ::
    "string list \<Rightarrow> fileSystemStore \<Rightarrow> filesys \<Rightarrow> error + (string \<rightharpoonup> bytes)" where
  "fileSystemStore_GetMeta manifests f fs = GetMeta_loop f manifests Map.empty fs"

fun createDirs_loop :: "fileSystemStore \<Rightarrow> string list \<Rightarrow> filesys \<Rightarrow> error option \<times> filesys" where
  "createDirs_loop f [] fs = (None, fs)"
| "createDirs_loop f (d # ds) fs =
     (case MkdirAll fs (Join [dir f, d]) of
        (Some e, fs') \<Rightarrow> (Some e, fs')
      | (None, fs') \<Rightarrow> createDirs_loop f ds fs')"

definition createDirs :: "fileSystemStore \<Rightarrow> filesys \<Rightarrow> error option \<times> filesys" where
  "createDirs f fs = createDirs_loop f [''keys'', ''repository'', ''staged/targets''] fs"

definition fileSystemStore_SetMeta ::
    "string \<Rightarrow> bytes \<Rightarrow> fileSystemStore \<Rightarrow> filesys \<Rightarrow> error option \<times> filesys" where
  "fileSystemStore_SetMeta name b f fs =
     (case createDirs f fs of
        (Some e, fs') \<Rightarrow> (Some e, fs')
      | (None, fs') \<Rightarrow> WriteFile fs' (Join [stagedDir f, name]) b)"

text \<open>The result is the open file: the node found at the path.\<close>

definition fileSystemStore_GetStagedTarget ::
    "string \<Rightarrow> fileSystemStore \<Rightarrow> filesys \<Rightarrow> error + node" where
  "fileSystemStore_GetStagedTarget path0 f fs =
     (let path = Join [stagedDir f, ''targets'', path0]
      in case Open fs path of
           Inl e \<Rightarrow> if IsNotExist e then Inl (ErrFileNotFound path) else Inl e
         | Inr file \<Rightarrow> Inr file)"

definition createRepoFile :: "fileSystemStore \<Rightarrow> string \<Rightarrow> filesys \<Rightarrow> (error + path) \<times> filesys" where
  "createRepoFile f path fs =
     (let dst = Join [repoDir f, path]
      in case MkdirAll fs (Dir dst) of
           (Some e, fs') \<Rightarrow> (Inl e, fs')
         | (None, fs') \<Rightarrow> Create fs' dst)"

definition hashedPaths :: "string \<Rightarrow> Hashes \<Rightarrow> string list" where
  "hashedPaths path hashes =
     map (\<lambda>(alg, hash). Join [Dir path, hash @ ''.'' @ Base path]) hashes"

definition fileSystemStore_Clean :: "fileSystemStore \<Rightarrow> filesys \<Rightarrow> error option \<times> filesys" where
  "fileSystemStore_Clean f fs =
     (case RemoveAll fs (stagedDir f) of
        (Some e, fs') \<Rightarrow> (Some e, fs')
      | (None, fs') \<Rightarrow> MkdirAll fs' (Join [stagedDir f, ''targets'']))"

subsection \<open>Commit\<close>

definition shouldCopyHashed :: "bool \<Rightarrow> string \<Rightarrow> bool" where
  "shouldCopyHashed consistentSnapshot path = (consistentSnapshot \<and> path \<noteq> ''timestamp.json'')"

definition shouldCopyUnhashed :: "bool \<Rightarrow> string \<Rightarrow> bool" where
  "shouldCopyUnhashed consistentSnapshot path =
     (\<not> consistentSnapshot \<or> path = ''root.json'' \<or> path = ''timestamp.json'')"

text \<open>The paths one staged file is copied to, relative to the repository.\<close>

definition copyPaths :: "bool \<Rightarrow> (string \<rightharpoonup> Hashes) \<Rightarrow> string \<Rightarrow> string list" where
  "copyPaths consistentSnapshot hashes rel =
     (if shouldCopyHashed consistentSnapshot rel then hashedPaths rel (hash_values hashes rel) else [])
     @ (if shouldCopyUnhashed consistentSnapshot rel then [rel] else [])"

fun create_files ::
    "fileSystemStore \<Rightarrow> string list \<Rightarrow> path list \<Rightarrow> filesys \<Rightarrow> (error + path list) \<times> filesys" where
  "create_files f [] files0 fs = (Inr files0, fs)"
| "create_files f (path # paths) files0 fs =
     (case createRepoFile f path fs of
        (Inl e, fs') \<Rightarrow> (Inl e, fs')
      | (Inr file, fs') \<Rightarrow> create_files f paths (files0 @ [file]) fs')"

text \<open>\<^verbatim>\<open>io.Copy\<close> into the \<^verbatim>\<open>io.MultiWriter\<close> of the files: each gets all the bytes.\<close>

definition copy_all :: "path list \<Rightarrow> bytes \<Rightarrow> filesys \<Rightarrow> filesys" where
  "copy_all files0 b fs = foldl (\<lambda>fs h. write_handle h b fs) fs files0"

definition copyToRepo ::
    "fileSystemStore \<Rightarrow> bool \<Rightarrow> (string \<rightharpoonup> Hashes) \<Rightarrow> string \<Rightarrow> error + node \<Rightarrow> filesys
       \<Rightarrow> error option \<times> filesys" where
  "copyToRepo f consistentSnapshot hashes path r fs =
     (case r of
        Inl err \<Rightarrow> (Some err, fs)
      | Inr info \<Rightarrow>
          if IsDir info \<or> \<not> IsRegular info then (None, fs)
          else (case Rel (stagedDir f) path of
                  Inl err \<Rightarrow> (Some err, fs)
                | Inr rel \<Rightarrow>
                    (case create_files f (copyPaths consistentSnapshot hashes rel) [] fs of
                       (Inl err, fs') \<Rightarrow> (Some err, fs')
                     | (Inr files0, fs') \<Rightarrow>
                         (case Open fs' path of
                            Inl err \<Rightarrow> (Some err, fs')
                          | Inr staged \<Rightarrow>
                              (case read_all staged of
                                 Inl err \<Rightarrow> (Some err, fs')
                               | Inr b \<Rightarrow> (None, copy_all files0 b fs'))))))"

definition isTarget :: "string \<Rightarrow> bool" where
  "isTarget path = HasPrefix path ''targets''"

text \<open>
  \<open>needsRemoval\<close> reads \<^verbatim>\<open>name[1]\<close> of the pieces of the file name: with one piece only the
  index is out of range and the program panics.
\<close>

definition needsRemoval :: "bool \<Rightarrow> (string \<rightharpoonup> Hashes) \<Rightarrow> string \<Rightarrow> error + bool" where
  "needsRemoval consistentSnapshot hashes path =
     (if consistentSnapshot then
        (let name = SplitN2 (Base path) (CHR ''.'')
         in if length name \<le> 1 then Inl PanicIndexOutOfRange
            else if name ! 1 = [] then Inr False
            else Inr (hashes (Join [Dir path, name ! 1]) = None))
      else Inr (hashes path = None))"

definition removeFile ::
    "fileSystemStore \<Rightarrow> bool \<Rightarrow> (string \<rightharpoonup> Hashes) \<Rightarrow> string \<Rightarrow> error + node \<Rightarrow> filesys
       \<Rightarrow> error option \<times> filesys" where
  "removeFile f consistentSnapshot hashes path r fs =
     (case r of
        Inl err \<Rightarrow> (Some err, fs)
      | Inr info \<Rightarrow>
          (case Rel (repoDir f) path of
             Inl err \<Rightarrow> (Some err, fs)
           | Inr rel \<Rightarrow>
               if \<not> IsDir info \<and> isTarget rel then
                 (case needsRemoval consistentSnapshot hashes rel of
                    Inl err \<Rightarrow> (Some err, fs)
                  | Inr True \<Rightarrow> (case Remove fs path of (err, fs') \<Rightarrow> (None, fs'))
                  | Inr False \<Rightarrow> (None, fs))
               else (None, fs)))"

definition fileSystemStore_Commit ::
    "(string \<rightharpoonup> bytes) \<Rightarrow> bool \<Rightarrow> (string \<rightharpoonup> Hashes) \<Rightarrow> fileSystemStore \<Rightarrow> filesys
       \<Rightarrow> error option \<times> filesys" where
  "fileSystemStore_Commit meta0 consistentSnapshot hashes f fs =
     (case Walk (stagedDir f) (copyToRepo f consistentSnapshot hashes) fs of
        (Some err, fs1) \<Rightarrow> (Some err, fs1)
      | (None, fs1) \<Rightarrow>
          (case Walk (repoDir f) (removeFile f consistentSnapshot hashes) fs1 of
             (Some err, fs2) \<Rightarrow> (Some err, fs2)
           | (None, fs2) \<Rightarrow> fileSystemStore_Clean f fs2))"

subsection \<open>Keys\<close>

fun GetKeys_loop ::
    "'k key_codec \<Rightarrow> fileSystemStore \<Rightarrow> string \<Rightarrow> string list \<Rightarrow> 'k list \<Rightarrow> filesys \<Rightarrow> error + 'k list" where
  "GetKeys_loop codec f role [] signingKeys fs = Inr signingKeys"
| "GetKeys_loop codec f role (name # names) signingKeys fs =
     (if \<not> HasPrefix name role then GetKeys_loop codec f role names signingKeys fs
      else (case Open fs (Join [dir f, ''keys'', name]) of
              Inl err \<Rightarrow> Inl err
            | Inr s \<Rightarrow>
                (case read_all s of
                   Inl err \<Rightarrow> Inl err
                 | Inr b \<Rightarrow>
                     (case Decode codec b of
                        Inl err \<Rightarrow> Inl err
                      | Inr key \<Rightarrow> GetKeys_loop codec f role names (signingKeys @ [key]) fs))))"

definition fileSystemStore_GetKeys ::
    "'k key_codec \<Rightarrow> string \<Rightarrow> fileSystemStore \<Rightarrow> filesys \<Rightarrow> error + 'k list" where
  "fileSystemStore_GetKeys codec role f fs =
     (case ReadDir fs (Join [dir f, ''keys'']) of
        Inl err \<Rightarrow> if IsNotExist err then Inr [] else Inl err
      | Inr files0 \<Rightarrow> GetKeys_loop codec f role files0 [] fs)"

definition fileSystemStore_SaveKey ::
    "'k key_codec \<Rightarrow> string \<Rightarrow> 'k \<Rightarrow> fileSystemStore \<Rightarrow> filesys \<Rightarrow> error option \<times> filesys" where
  "fileSystemStore_SaveKey codec role key f fs =
     (case createDirs f fs of
        (Some err, fs') \<Rightarrow> (Some err, fs')
      | (None, fs') \<Rightarrow>
          (case MarshalIndent codec key of
             Inl err \<Rightarrow> (Some err, fs')
           | Inr data \<Rightarrow>
               WriteFile fs' (Join [dir f, ''keys'', role @ ''-'' @ ID codec key @ ''.json''])
                 (data @ [CHR 0x0A])))"

section \<open>Predicates of the proofs\<close>

text \<open>
  A valid name is what a directory entry can be called: not empty, not \<^verbatim>\<open>.\<close> or \<^verbatim>\<open>..\<close>, and
  without a separator. \<open>cleaned\<close> is the form of the element list \<^verbatim>\<open>filepath.Clean\<close>
  produces (\<^verbatim>\<open>..\<close> only in front, and only in a relative path), \<open>render\<close> the string it
  writes for the list, and \<open>hashed_name\<close> the file name of a hashed copy.
\<close>

definition valid_name :: "string \<Rightarrow> bool" where
  "valid_name c = (c \<noteq> [] \<and> c \<noteq> ''.'' \<and> c \<noteq> ''..'' \<and> CHR ''/'' \<notin> set c)"

definition valid_path :: "path \<Rightarrow> bool" where
  "valid_path q = list_all valid_name q"

definition dropdots :: "string list \<Rightarrow> string list" where
  "dropdots out = dropWhile (\<lambda>c. c = ''..'') out"

definition plain :: "string \<Rightarrow> bool" where
  "plain c = (c \<noteq> [] \<and> c \<noteq> ''.'' \<and> CHR ''/'' \<notin> set c)"

definition cleaned :: "bool \<Rightarrow> string list \<Rightarrow> bool" where
  "cleaned r out = (list_all plain out \<and> valid_path (dropdots out) \<and> (r \<longrightarrow> valid_path out))"

definition render :: "bool \<Rightarrow> string list \<Rightarrow> string" where
  "render r out = (if r then CHR ''/'' # join_sep out else if out = [] then ''.'' else join_sep out)"

definition hashed_name :: "string \<Rightarrow> string \<Rightarrow> string" where
  "hashed_name h n = h @ ''.'' @ n"

section \<open>Runs of the stores\<close>

text \<open>A sequence of \<open>SaveKey\<close> calls on the memory store.\<close>

fun SaveKey_all :: "(string \<times> 'k) list \<Rightarrow> 'k memoryStore \<Rightarrow> 'k memoryStore" where
  "SaveKey_all [] m = m"
| "SaveKey_all ((role, key) # rest) m = SaveKey_all rest (snd (memoryStore_SaveKey role key m))"

text \<open>
  The codec of the examples: a key is a string, which is its own identifier and its own
  coding; decoding reads up to the newline that \<open>SaveKey\<close> appends.
\<close>

definition plain_codec :: "string key_codec" where
  "plain_codec =
     \<lparr>ID = (\<lambda>k. k),
      MarshalIndent = (\<lambda>k. Inr k),
      Decode = (\<lambda>b. Inr (takeWhile (\<lambda>c. c \<noteq> CHR 0x0A) b))\<rparr>"

definition empty_fs :: filesys where
  "empty_fs = \<lparr>nodes = [], immutable = []\<rparr>"

text \<open>
  A store whose repository holds the target \<^verbatim>\<open>targets/LICENSE\<close>, published by a commit
  without consistent snapshots, and whose staging area is empty.
\<close>

definition license_fs :: filesys where
  "license_fs =
     \<lparr>nodes = [([''store''], Directory),
               ([''store'', ''repository''], Directory),
               ([''store'', ''repository'', ''targets''], Directory),
               ([''store'', ''repository'', ''targets'', ''LICENSE''], Regular ''text''),
               ([''store'', ''staged''], Directory),
               ([''store'', ''staged'', ''targets''], Directory)],
      immutable = []\<rparr>"

definition license_hashes :: "string \<rightharpoonup> Hashes" where
  "license_hashes = [''targets/LICENSE'' \<mapsto> [(''sha256'', ''0a1b'')]]"

text \<open>Every entry of the file system is under a path of valid names.\<close>

definition names_ok :: "filesys \<Rightarrow> bool" where
  "names_ok fs = list_all (\<lambda>(p, n). valid_path p) (nodes fs)"

text \<open>
  The places of a store in the file system, and the component lists of the paths a staged
  file at the relative path \<open>q\<close> is copied to (what \<open>copyPaths\<close> yields for it).
\<close>

definition repoPath :: "fileSystemStore \<Rightarrow> path" where
  "repoPath f = pathOf (repoDir f)"

definition stagedPath :: "fileSystemStore \<Rightarrow> path" where
  "stagedPath f = pathOf (stagedDir f)"

definition rel_of :: "path \<Rightarrow> string" where
  "rel_of q = (if q = [] then ''.'' else join_sep q)"

definition copy_dsts :: "bool \<Rightarrow> (string \<rightharpoonup> Hashes) \<Rightarrow> path \<Rightarrow> path list" where
  "copy_dsts consistentSnapshot hashes q =
     (if shouldCopyHashed consistentSnapshot (join_sep q)
      then map (\<lambda>(alg, h). butlast q @ [hashed_name h (last q)]) (hash_values hashes (join_sep q))
      else [])
     @ (if shouldCopyUnhashed consistentSnapshot (join_sep q) then [q] else [])"

text \<open>The value strings of a hash set hold no separator.\<close>

definition sep_free :: "(string \<rightharpoonup> Hashes) \<Rightarrow> bool" where
  "sep_free hashes = (\<forall>p hs. hashes p = Some hs \<longrightarrow> list_all (\<lambda>(alg, h). CHR ''/'' \<notin> set h) hs)"

text \<open>
  Two file systems that agree outside a subtree, and the effect on the file system of
  copying the staged file at the relative path \<open>q\<close> with contents \<open>b\<close>: its destinations
  hold \<open>b\<close>, the directories above them exist, and nothing else has changed; no file
  was in the place of such a directory, and no directory in the place of a destination.
\<close>

definition same_outside :: "path \<Rightarrow> filesys \<Rightarrow> filesys \<Rightarrow> bool" where
  "same_outside r fs fs' = (\<forall>p. \<not> prefix r p \<longrightarrow> node_at fs' p = node_at fs p)"

definition copy_effect ::
    "fileSystemStore \<Rightarrow> bool \<Rightarrow> (string \<rightharpoonup> Hashes) \<Rightarrow> path \<Rightarrow> bytes \<Rightarrow> filesys \<Rightarrow> filesys \<Rightarrow> bool" where
  "copy_effect f cs hashes q b fsa fsb =
     ((\<forall>p. node_at fsb p =
             (if p \<in> (@) (repoPath f) ` set (copy_dsts cs hashes q) then Some (Regular b)
              else if copy_dsts cs hashes q \<noteq> [] \<and> strict_prefix p (repoPath f @ q)
                   then Some Directory
              else node_at fsa p)) \<and>
      (\<forall>p b'. copy_dsts cs hashes q \<noteq> [] \<and> strict_prefix p (repoPath f @ q)
                 \<longrightarrow> node_at fsa p \<noteq> Some (Regular b')) \<and>
      (\<forall>p\<in>(@) (repoPath f) ` set (copy_dsts cs hashes q). node_at fsa p \<noteq> Some Directory) \<and>
      immutable fsb = immutable fsa)"

text \<open>The garbage collection removes the repository file at the relative path \<open>t\<close>.\<close>

definition gc_removes :: "bool \<Rightarrow> (string \<rightharpoonup> Hashes) \<Rightarrow> path \<Rightarrow> bool" where
  "gc_removes cs hashes t =
     (isTarget (join_sep t) \<and> needsRemoval cs hashes (join_sep t) = Inr True)"

text \<open>
  A store in the directory \<^verbatim>\<open>store\<close>. Its repository holds what an earlier commit
  published: a root manifest and two targets, of which the hash set no longer lists
  \<^verbatim>\<open>targets/old.txt\<close>. Staged are a new root manifest, a timestamp manifest and the
  target \<^verbatim>\<open>targets/foo.txt\<close>.
\<close>

definition demo_store :: fileSystemStore where
  "demo_store = FileSystemStore ''store''"

definition demo_fs :: filesys where
  "demo_fs =
     \<lparr>nodes = [([''store''], Directory),
               ([''store'', ''keys''], Directory),
               ([''store'', ''repository''], Directory),
               ([''store'', ''repository'', ''root.json''], Regular ''root 1''),
               ([''store'', ''repository'', ''targets''], Directory),
               ([''store'', ''repository'', ''targets'', ''bar.txt''], Regular ''bar''),
               ([''store'', ''repository'', ''targets'', ''old.txt''], Regular ''old''),
               ([''store'', ''staged''], Directory),
               ([''store'', ''staged'', ''root.json''], Regular ''root 2''),
               ([''store'', ''staged'', ''timestamp.json''], Regular ''time 2''),
               ([''store'', ''staged'', ''targets''], Directory),
               ([''store'', ''staged'', ''targets'', ''foo.txt''], Regular ''foo'')],
      immutable = []\<rparr>"

definition demo_hashes :: "string \<rightharpoonup> Hashes" where
  "demo_hashes =
     [''root.json'' \<mapsto> [(''sha256'', ''0a'')],
      ''targets/foo.txt'' \<mapsto> [(''sha256'', ''1b''), (''sha512'', ''2c'')],
      ''targets/bar.txt'' \<mapsto> [(''sha256'', ''3d'')]]"

text \<open>
  A repository with a target whose name ends in its only \<^verbatim>\<open>.\<close>, and the store of
  \<open>demo_fs\<close> with the stale target \<^verbatim>\<open>targets/old.txt\<close> made immutable.
\<close>

definition dot_fs :: filesys where
  "dot_fs =
     \<lparr>nodes = [([''store''], Directory),
               ([''store'', ''repository''], Directory),
               ([''store'', ''repository'', ''targets''], Directory),
               ([''store'', ''repository'', ''targets'', ''v1.''], Regular ''v1''),
               ([''store'', ''staged''], Directory),
               ([''store'', ''staged'', ''targets''], Directory)],
      immutable = []\<rparr>"

definition locked_fs :: filesys where
  "locked_fs = demo_fs\<lparr>immutable := [[''store'', ''repository'', ''targets'', ''old.txt'']]\<rparr>"

section \<open>Paths: cleaning, joining, splitting\<close>

lemma split_sep_nonempty: "split_sep s \<noteq> []"
  by (induction s) (auto split: list.splits)

lemma split_sep_append: "split_sep (a @ CHR ''/'' # b) = split_sep a @ split_sep b"
proof (induction a)
  case Nil
  show ?case by simp
next
  case (Cons x a)
  obtain w ws where w: "split_sep a = w # ws"
    using split_sep_nonempty [of a] by (cases "split_sep a") auto
  show ?case using Cons w by simp
qed

lemma split_sep_single: "CHR ''/'' \<notin> set c \<Longrightarrow> split_sep c = [c]"
  by (induction c) auto

lemma split_sep_no_slash: "c \<in> set (split_sep s) \<Longrightarrow> CHR ''/'' \<notin> set c"
proof (induction s arbitrary: c)
  case Nil
  then show ?case by simp
next
  case (Cons x s)
  obtain w ws where w: "split_sep s = w # ws"
    using split_sep_nonempty [of s] by (cases "split_sep s") auto
  show ?case
  proof (cases "x = CHR ''/''")
    case True
    then show ?thesis using Cons by auto
  next
    case False
    then have "c = x # w \<or> c \<in> set ws" using Cons.prems w by auto
    then show ?thesis using Cons.IH [of w] Cons.IH [of c] w False by auto
  qed
qed

lemma split_sep_join_sep:
  "cs \<noteq> [] \<Longrightarrow> \<forall>c\<in>set cs. CHR ''/'' \<notin> set c \<Longrightarrow> split_sep (join_sep cs) = cs"
proof (induction cs rule: join_sep.induct)
  case 1
  then show ?case by simp
next
  case (2 c)
  then show ?case by (simp add: split_sep_single)
next
  case (3 c d cs)
  then show ?case by (simp add: split_sep_append split_sep_single)
qed

lemma clean_step_valid: "valid_name c \<Longrightarrow> clean_step r out c = out @ [c]"
  by (simp add: clean_step_def valid_name_def)

lemma foldl_clean_step_valid:
  "valid_path q \<Longrightarrow> foldl (clean_step r) out q = out @ q"
  by (induction q arbitrary: out) (simp_all add: valid_path_def clean_step_valid)

lemma valid_path_append [simp]: "valid_path (a @ b) = (valid_path a \<and> valid_path b)"
  by (simp add: valid_path_def)

lemma valid_path_butlast: "valid_path a \<Longrightarrow> valid_path (butlast a)"
  unfolding valid_path_def list_all_iff by (auto dest: in_set_butlastD)

lemma dropdots_append_valid: "valid_name c \<Longrightarrow> dropdots (out @ [c]) = dropdots out @ [c]"
  by (induction out) (auto simp: dropdots_def valid_name_def)

lemma dropdots_valid: "valid_path out \<Longrightarrow> dropdots out = out"
  by (cases out) (auto simp: dropdots_def valid_path_def valid_name_def)

lemma dropdots_snoc_dots: "dropdots out = [] \<Longrightarrow> dropdots (out @ [''..'']) = []"
  by (induction out) (auto simp: dropdots_def split: if_splits)

lemma dropdots_nil_last: "out \<noteq> [] \<Longrightarrow> dropdots out = [] \<Longrightarrow> last out = ''..''"
  by (induction out) (auto simp: dropdots_def split: if_splits)

lemma dropdots_butlast:
  "dropdots out \<noteq> [] \<Longrightarrow> dropdots (butlast out) = butlast (dropdots out)"
  by (induction out) (auto simp: dropdots_def split: if_splits)

lemma dropdots_last: "dropdots out \<noteq> [] \<Longrightarrow> last (dropdots out) = last out"
  by (induction out) (auto simp: dropdots_def split: if_splits)

lemma plain_cases: "plain c \<Longrightarrow> c = ''..'' \<or> valid_name c"
  by (auto simp: plain_def valid_name_def)

lemma cleaned_step:
  assumes "cleaned r out" "CHR ''/'' \<notin> set c"
  shows "cleaned r (clean_step r out c)"
    and "dropdots (clean_step r out c) = clean_step True (dropdots out) c"
proof -
  have pl: "list_all plain out" and vd: "valid_path (dropdots out)" and vr: "r \<longrightarrow> valid_path out"
    using assms(1) by (auto simp: cleaned_def)
  consider (skip) "c = [] \<or> c = ''.''" | (up) "c = ''..''" | (name) "valid_name c"
    using assms(2) by (auto simp: valid_name_def)
  then have "cleaned r (clean_step r out c) \<and> dropdots (clean_step r out c) = clean_step True (dropdots out) c"
  proof cases
    case skip
    then show ?thesis using assms(1) by (auto simp: clean_step_def)
  next
    case name
    then have "plain c" by (simp add: plain_def valid_name_def)
    then show ?thesis using name pl vd vr
      by (simp add: clean_step_valid cleaned_def dropdots_append_valid) (simp add: valid_path_def)
  next
    case up
    show ?thesis
    proof (cases "dropdots out = []")
      case True
      then have l: "out \<noteq> [] \<longrightarrow> last out = ''..''" using dropdots_nil_last by blast
      show ?thesis
      proof (cases r)
        case True
        then have "out = []" using vr \<open>dropdots out = []\<close> dropdots_valid by fastforce
        then show ?thesis using up assms(1) \<open>r\<close> by (simp add: clean_step_def dropdots_def)
      next
        case False
        have "plain ''..''" by (simp add: plain_def)
        then show ?thesis using up False True l pl
          by (auto simp: clean_step_def cleaned_def dropdots_snoc_dots valid_path_def)
      qed
    next
      case False
      then have ne: "out \<noteq> []" by (auto simp: dropdots_def)
      have "last (dropdots out) \<in> set (dropdots out)" using False by simp
      then have "valid_name (last (dropdots out))" using vd by (simp add: valid_path_def list_all_iff)
      then have lo: "last out \<noteq> ''..''" "last (dropdots out) \<noteq> ''..''"
        using dropdots_last [OF False] by (auto simp: valid_name_def)
      have st: "clean_step r out c = butlast out" "clean_step True (dropdots out) c = butlast (dropdots out)"
        using up ne lo False by (auto simp: clean_step_def)
      have "list_all plain (butlast out)" using pl unfolding list_all_iff by (auto dest: in_set_butlastD)
      then show ?thesis using st False vd vr
        by (simp add: cleaned_def dropdots_butlast valid_path_butlast)
    qed
  qed
  then show "cleaned r (clean_step r out c)"
    and "dropdots (clean_step r out c) = clean_step True (dropdots out) c" by auto
qed

lemma cleaned_foldl:
  "cleaned r out \<Longrightarrow> \<forall>c\<in>set cs. CHR ''/'' \<notin> set c \<Longrightarrow>
     cleaned r (foldl (clean_step r) out cs) \<and>
     dropdots (foldl (clean_step r) out cs) = foldl (clean_step True) (dropdots out) cs"
proof (induction cs arbitrary: out)
  case Nil
  then show ?case by simp
next
  case (Cons c cs)
  then show ?case using cleaned_step [of r out c] by simp
qed

lemma cleaned_nil: "cleaned r []"
  by (simp add: cleaned_def valid_path_def dropdots_def)

lemma cleaned_clean_elems: "cleaned r (clean_elems r (split_sep s))"
  using cleaned_foldl [OF cleaned_nil, of "split_sep s" r] split_sep_no_slash
  by (auto simp: clean_elems_def)

lemma dropdots_clean_elems: "dropdots (clean_elems r (split_sep s)) = pathOf s"
  using cleaned_foldl [OF cleaned_nil, of "split_sep s" r] split_sep_no_slash
  by (auto simp: clean_elems_def pathOf_def dropdots_def)

lemma valid_pathOf: "valid_path (pathOf s)"
  using cleaned_clean_elems [of True s] by (simp add: cleaned_def pathOf_def)

lemma Clean_render_def:
  "Clean s = (if s = [] then ''.'' else render (hd s = CHR ''/'') (clean_elems (hd s = CHR ''/'') (split_sep s)))"
  by (simp add: Clean_def render_def Let_def)

lemma cleaned_plain: "cleaned r out \<Longrightarrow> c \<in> set out \<Longrightarrow> plain c"
  by (simp add: cleaned_def list_all_iff)

lemma cleaned_no_slash: "cleaned r out \<Longrightarrow> \<forall>c\<in>set out. CHR ''/'' \<notin> set c"
  by (auto simp: cleaned_def list_all_iff plain_def)

lemma foldl_True_dropdots:
  "valid_path (dropdots out) \<Longrightarrow> foldl (clean_step True) [] out = dropdots out"
proof (induction out)
  case Nil
  then show ?case by (simp add: dropdots_def)
next
  case (Cons c cs)
  show ?case
  proof (cases "c = ''..''")
    case True
    then show ?thesis using Cons by (simp add: dropdots_def clean_step_def)
  next
    case False
    then have "dropdots (c # cs) = c # cs" by (simp add: dropdots_def)
    then show ?thesis using Cons.prems foldl_clean_step_valid [of "c # cs" True "[]"] by simp
  qed
qed

lemma pathOf_nil [simp]: "pathOf [] = []"
  by (simp add: pathOf_def clean_elems_def clean_step_def)

lemma pathOf_dot [simp]: "pathOf ''.'' = []"
  by (simp add: pathOf_def clean_elems_def clean_step_def)

lemma split_sep_render:
  assumes "cleaned r out" "out \<noteq> []"
  shows "split_sep (render r out) = (if r then [] # out else out)"
  using assms cleaned_no_slash [OF assms(1)] by (simp add: render_def split_sep_join_sep)

lemma pathOf_render: 
  assumes "cleaned r out"
  shows "pathOf (render r out) = dropdots out"
proof (cases "out = []")
  case True
  then show ?thesis by (cases r) (simp_all add: render_def dropdots_def pathOf_def clean_elems_def clean_step_def)
next
  case False
  have "pathOf (render r out) = foldl (clean_step True) [] out"
    using split_sep_render [OF assms False] by (cases r) (simp_all add: pathOf_def clean_elems_def clean_step_def)
  then show ?thesis using foldl_True_dropdots assms by (simp add: cleaned_def)
qed

lemma pathOf_Clean [simp]: "pathOf (Clean s) = pathOf s"
  by (simp add: Clean_render_def pathOf_render cleaned_clean_elems dropdots_clean_elems)

lemma pathOf_append: "pathOf (a @ CHR ''/'' # b) = foldl (clean_step True) (pathOf a) (split_sep b)"
  by (simp add: pathOf_def clean_elems_def split_sep_append)

lemma step_nil [simp]: "clean_step r out [] = out"
  by (simp add: clean_step_def)

lemma pathOf_Join2: "pathOf (Join [x, y]) = foldl (clean_step True) (pathOf x) (split_sep y)"
  by (cases "x = []"; cases "y = []") (simp_all add: Join_def pathOf_append, simp_all add: pathOf_def clean_elems_def)

lemma pathOf_Join3:
  "pathOf (Join [x, y, z]) = foldl (clean_step True) (foldl (clean_step True) (pathOf x) (split_sep y)) (split_sep z)"
  by (cases "x = []"; cases "y = []"; cases "z = []")
     (simp_all add: Join_def pathOf_append split_sep_append, simp_all add: pathOf_def clean_elems_def)

lemma valid_path_no_slash: "valid_path q \<Longrightarrow> \<forall>c\<in>set q. CHR ''/'' \<notin> set c"
  by (auto simp: valid_path_def list_all_iff valid_name_def)

lemma pathOf_Join_rel:
  "valid_path q \<Longrightarrow> q \<noteq> [] \<Longrightarrow> pathOf (Join [x, join_sep q]) = pathOf x @ q"
  by (simp add: pathOf_Join2 split_sep_join_sep valid_path_no_slash foldl_clean_step_valid)

lemma pathOf_Join_name:
  "valid_name n \<Longrightarrow> pathOf (Join [x, n]) = pathOf x @ [n]"
  using pathOf_Join_rel [of "[n]" x] by (simp add: valid_path_def)

lemma cleaned_snoc_valid: "cleaned r out \<Longrightarrow> valid_name n \<Longrightarrow> cleaned r (out @ [n])"
  by (auto simp: cleaned_def dropdots_append_valid plain_def valid_name_def valid_path_def)

lemma cleaned_append_valid: "cleaned r out \<Longrightarrow> valid_path q \<Longrightarrow> cleaned r (out @ q)"
proof (induction q arbitrary: out)
  case Nil
  then show ?case by simp
next
  case (Cons n q)
  from Cons.prems have n: "valid_name n" and q: "valid_path q" by (simp_all add: valid_path_def)
  have "cleaned r ((out @ [n]) @ q)"
    by (rule Cons.IH [OF cleaned_snoc_valid [OF Cons.prems(1) n] q])
  then show ?case by simp
qed

lemma cleaned_valid: "valid_path q \<Longrightarrow> cleaned r q"
  using cleaned_append_valid [OF cleaned_nil, of q r] by simp

lemma dropdots_nil_step:
  "dropdots out = [] \<Longrightarrow> clean_step False out ''..'' = out @ [''..'']"
  using dropdots_nil_last [of out] by (auto simp: clean_step_def)

lemma cleaned_foldl_id: "cleaned r out \<Longrightarrow> foldl (clean_step r) [] out = out"
proof (induction out rule: rev_induct)
  case Nil
  then show ?case by simp
next
  case (snoc x xs)
  have px: "plain x" using snoc.prems cleaned_plain by fastforce
  show ?case
  proof (cases "valid_name x")
    case True
    then have "cleaned r xs"
      using snoc.prems by (auto simp: cleaned_def dropdots_append_valid)
    then show ?thesis using snoc.IH True by (simp add: clean_step_valid)
  next
    case False
    then have x: "x = ''..''" using px plain_cases by blast
    have nr: "\<not> r" using snoc.prems x by (auto simp: cleaned_def valid_path_def valid_name_def)
    have dd: "dropdots xs = []"
    proof (rule ccontr)
      assume "dropdots xs \<noteq> []"
      then have "dropdots (xs @ [x]) = dropdots xs @ [x]"
        by (induction xs) (auto simp: dropdots_def)
      then show False using snoc.prems x by (auto simp: cleaned_def valid_path_def valid_name_def)
    qed
    have "cleaned r xs" using snoc.prems dd nr by (auto simp: cleaned_def valid_path_def)
    then show ?thesis using snoc.IH x nr dd by (simp add: dropdots_nil_step)
  qed
qed

lemma join_sep_nonempty: "out \<noteq> [] \<Longrightarrow> hd out \<noteq> [] \<Longrightarrow> join_sep out \<noteq> [] \<and> hd (join_sep out) = hd (hd out)"
  by (induction out rule: join_sep.induct) auto

lemma join_sep_nil_iff: "join_sep out = [] \<longleftrightarrow> out = [] \<or> out = [[]]"
  by (induction out rule: join_sep.induct) auto

lemma cleaned_render_nonempty: "cleaned r out \<Longrightarrow> render r out \<noteq> []"
  by (auto simp: render_def join_sep_nil_iff cleaned_def plain_def)

lemma hd_render: "cleaned r out \<Longrightarrow> (hd (render r out) = CHR ''/'') = r"
proof (cases "out = []")
  case True
  then show ?thesis by (simp add: render_def)
next
  case False
  assume c: "cleaned r out"
  have "plain (hd out)" using c False cleaned_plain by fastforce
  then have "hd out \<noteq> []" "hd (hd out) \<noteq> CHR ''/''"
    by (auto simp: plain_def) (metis list.set_sel(1))
  then show ?thesis using join_sep_nonempty [OF False] by (simp add: render_def)
qed

lemma clean_elems_render: "cleaned r out \<Longrightarrow> clean_elems r (split_sep (render r out)) = out"
proof (cases "out = []")
  case True
  then show ?thesis by (cases r) (simp_all add: render_def clean_elems_def clean_step_def)
next
  case False
  assume c: "cleaned r out"
  show ?thesis using split_sep_render [OF c False] cleaned_foldl_id [OF c]
    by (cases r) (simp_all add: clean_elems_def)
qed

lemma Clean_render: "cleaned r out \<Longrightarrow> Clean (render r out) = render r out"
  by (simp add: Clean_render_def cleaned_render_nonempty hd_render clean_elems_render)

lemma Clean_dot [simp]: "Clean ''.'' = ''.''"
  by (simp add: Clean_def clean_elems_def clean_step_def)

lemma Clean_idem: "Clean (Clean s) = Clean s"
proof (cases "s = []")
  case True
  then show ?thesis by (simp add: Clean_def [of "[]"])
next
  case False
  then have "Clean s = render (hd s = CHR ''/'') (clean_elems (hd s = CHR ''/'') (split_sep s))"
    by (simp add: Clean_render_def)
  then show ?thesis using Clean_render [OF cleaned_clean_elems] by simp
qed

lemma Clean_render_snoc:
  assumes "cleaned r out" "CHR ''/'' \<notin> set n"
  shows "Clean (render r out @ CHR ''/'' # n) = render r (clean_step r out n)"
proof -
  have "hd (render r out @ CHR ''/'' # n) = hd (render r out)"
    using cleaned_render_nonempty [OF assms(1)] by simp
  then show ?thesis using assms
    by (simp add: Clean_render_def hd_render split_sep_append split_sep_single clean_elems_def
        clean_elems_render [unfolded clean_elems_def])
qed

lemma Join_render_snoc:
  "cleaned r out \<Longrightarrow> valid_name n \<Longrightarrow> Join [render r out, n] = render r (out @ [n])"
  using Clean_render_snoc [of r out n] cleaned_render_nonempty [of r out]
  by (simp add: Join_def clean_step_valid valid_name_def)

lemma walk_name_render:
  "cleaned r out \<Longrightarrow> valid_path q \<Longrightarrow> walk_name (render r out) q = render r (out @ q)"
proof (induction q arbitrary: out)
  case Nil
  then show ?case by (simp add: walk_name_def)
next
  case (Cons n q)
  then have n: "valid_name n" and q: "valid_path q" by (simp_all add: valid_path_def)
  have "walk_name (render r out) (n # q) = walk_name (render r (out @ [n])) q"
    using Join_render_snoc [OF Cons.prems(1) n] by (simp add: walk_name_def)
  then show ?case using Cons.IH [OF cleaned_snoc_valid [OF Cons.prems(1) n] q] by simp
qed

text \<open>A path joined from a directory and a name is the rendering of a cleaned list that ends in the name.\<close>
lemma Join_name_render:
  assumes "valid_name n"
  shows "\<exists>r out. cleaned r out \<and> Join [d, n] = render r (out @ [n]) \<and> pathOf d = dropdots out"
proof (cases "d = []")
  case True
  have "Join [d, n] = Clean n" using True assms by (simp add: Join_def valid_name_def)
  moreover have "Clean n = render False [n]"
    using Clean_render [of False "[n]"] cleaned_valid [of "[n]" False] assms
    by (simp add: valid_path_def render_def)
  ultimately show ?thesis using True cleaned_nil [of False]
    by (intro exI [of _ False] exI [of _ "[]"]) (simp add: dropdots_def)
next
  case False
  let ?r = "hd d = CHR ''/''"
  let ?out = "clean_elems ?r (split_sep d)"
  have "Join [d, n] = Clean (d @ CHR ''/'' # n)" using False by (simp add: Join_def)
  also have "\<dots> = render ?r (clean_step ?r ?out n)"
    using False assms
    by (simp add: Clean_render_def split_sep_append split_sep_single valid_name_def clean_elems_def)
  finally have "Join [d, n] = render ?r (?out @ [n])" using assms by (simp add: clean_step_valid)
  then show ?thesis using cleaned_clean_elems [of ?r d] dropdots_clean_elems [of ?r d] by metis
qed

lemma strip_common_append: "strip_common xs (xs @ q) = ([], q)"
  by (induction xs) simp_all

lemma join_sep_snoc: "out \<noteq> [] \<Longrightarrow> join_sep (out @ [n]) = join_sep out @ CHR ''/'' # n"
  by (induction out rule: join_sep.induct) auto

lemma render_snoc: "cleaned r out \<Longrightarrow> out \<noteq> [] \<Longrightarrow> render r (out @ [n]) = render r out @ CHR ''/'' # n"
  by (simp add: render_def join_sep_snoc)

lemma render_inj:
  assumes "cleaned r a" "cleaned r b" "render r a = render r b"
  shows "a = b"
proof -
  have "clean_elems r (split_sep (render r a)) = a" "clean_elems r (split_sep (render r b)) = b"
    using assms(1,2) by (simp_all add: clean_elems_render)
  then show ?thesis using assms(3) by metis
qed

lemma elems_render:
  assumes "cleaned r out" "out \<noteq> []"
  shows "elems (render r out) = (if r then [] # out else out)"
proof -
  have "plain (hd out)" using assms cleaned_plain by fastforce
  then have "join_sep out \<noteq> []" using assms(2) by (auto simp: join_sep_nil_iff plain_def)
  moreover have "join_sep out \<noteq> ''/''"
  proof
    assume "join_sep out = ''/''"
    then have "split_sep (join_sep out) = [[], []]" by simp
    then have "out = [[], []]" using split_sep_join_sep [OF assms(2)] cleaned_no_slash [OF assms(1)] by simp
    then show False using \<open>plain (hd out)\<close> by (simp add: plain_def)
  qed
  ultimately have "render r out \<noteq> ''/''" "render r out \<noteq> []" by (auto simp: render_def)
  then show ?thesis using split_sep_render [OF assms] by (simp add: elems_def)
qed

lemma Rel_render:
  assumes c: "cleaned r out" and ne: "out \<noteq> []" and q: "valid_path q"
  shows "Rel (render r out) (render r (out @ q)) = Inr (if q = [] then ''.'' else join_sep q)"
proof (cases "q = []")
  case True
  then show ?thesis by (simp add: Rel_def)
next
  case False
  have cq: "cleaned r (out @ q)" using c q by (rule cleaned_append_valid)
  have neq: "render r (out @ q) \<noteq> render r out"
    using render_inj [OF cq c] False by auto
  have nd: "render r out \<noteq> ''.''"
  proof
    assume "render r out = ''.''"
    then have "render r out = render r []" "\<not> r" by (auto simp: render_def split: if_splits)
    then show False using render_inj [OF c cleaned_nil] ne by simp
  qed
  have "strip_common (elems (render r out)) (elems (render r (out @ q))) = ([], q)"
    using elems_render [OF c ne] elems_render [OF cq] ne strip_common_append [of "[] # out" q]
      strip_common_append [of out q]
    by (cases r) simp_all
  then show ?thesis
    using False neq nd Clean_render [OF c] Clean_render [OF cq] hd_render [OF c] hd_render [OF cq]
      cleaned_render_nonempty [OF c] cleaned_render_nonempty [OF cq]
    by (simp add: Rel_def)
qed

lemma takeWhile_all: "\<forall>x\<in>set xs. P x \<Longrightarrow> takeWhile P xs = xs"
  by (simp add: takeWhile_eq_all_conv)

lemma Base_join_sep:
  assumes "valid_path q" "q \<noteq> []"
  shows "Base (join_sep q) = last q"
proof -
  obtain bl l where q: "q = bl @ [l]" using assms(2) by (metis rev_exhaust)
  have l: "l \<noteq> []" "CHR ''/'' \<notin> set l" using assms(1) q by (auto simp: valid_path_def valid_name_def)
  then have ll: "last l \<noteq> CHR ''/''" by (metis last_in_set)
  have tw: "takeWhile (\<lambda>c. c \<noteq> CHR ''/'') (rev l @ CHR ''/'' # x) = rev l" for x
    using l(2) by (auto simp: takeWhile_tail takeWhile_eq_all_conv)
  have tw0: "takeWhile (\<lambda>c. c \<noteq> CHR ''/'') (rev l) = rev l"
    using l(2) by (auto simp: takeWhile_eq_all_conv)
  have dw: "dropWhile (\<lambda>c. c = CHR ''/'') (rev l @ x) = rev l @ x" for x
    using l ll by (cases "rev l") (auto simp: hd_rev)
  show ?thesis
  proof (cases "bl = []")
    case True
    then show ?thesis using q l dw [of "[]"] by (simp add: Base_def Let_def tw0)
  next
    case False
    then have "join_sep q = join_sep bl @ CHR ''/'' # l" using q join_sep_snoc by simp
    then show ?thesis using q l by (simp add: Base_def Let_def dw tw)
  qed
qed

lemma Dir_render:
  assumes c: "cleaned r out" and ne: "out \<noteq> []"
  shows "Dir (render r out) = render r (butlast out)"
proof -
  obtain bl l where q: "out = bl @ [l]" using ne by (metis rev_exhaust)
  have l: "CHR ''/'' \<notin> set l" using c q cleaned_no_slash by fastforce
  have cb: "cleaned r bl" 
  proof -
    have "list_all plain bl" using c q by (simp add: cleaned_def)
    moreover have "valid_path (dropdots bl)"
    proof (cases "dropdots bl = []")
      case True then show ?thesis by (simp add: valid_path_def)
    next
      case False
      then have "dropdots (bl @ [l]) = dropdots bl @ [l]" by (induction bl) (auto simp: dropdots_def)
      then show ?thesis using c q by (simp add: cleaned_def)
    qed
    moreover have "r \<longrightarrow> valid_path bl" using c q by (simp add: cleaned_def)
    ultimately show ?thesis by (simp add: cleaned_def)
  qed
  have dw: "dropWhile (\<lambda>c. c \<noteq> CHR ''/'') (rev l @ x) = dropWhile (\<lambda>c. c \<noteq> CHR ''/'') x" for x
    using l by (intro dropWhile_append2) auto
  show ?thesis
  proof (cases "bl = []")
    case True
    then show ?thesis using q dw [of "[]"] dw [of "[CHR ''/'']"]
      by (cases r) (simp_all add: Dir_def render_def Clean_def clean_elems_def clean_step_def)
  next
    case False
    have "render r out = render r bl @ CHR ''/'' # l" using q render_snoc [OF cb False] by simp
    then have "Dir (render r out) = Clean (render r bl @ CHR ''/'' # [])"
      using dw by (simp add: Dir_def)
    then show ?thesis using Clean_render_snoc [OF cb, of "[]"] q by simp
  qed
qed

lemma render_False_valid: "q \<noteq> [] \<Longrightarrow> render False q = join_sep q"
  by (simp add: render_def)

lemma Dir_join_sep:
  "valid_path q \<Longrightarrow> q \<noteq> [] \<Longrightarrow> Dir (join_sep q) = render False (butlast q)"
  using Dir_render [OF cleaned_valid, of q False] by (simp add: render_def)

lemma valid_hashed_name: "CHR ''/'' \<notin> set h \<Longrightarrow> valid_name n \<Longrightarrow> valid_name (hashed_name h n)"
  by (cases h; cases n) (auto simp: valid_name_def hashed_name_def)

lemma hashed_path_join_sep:
  assumes "valid_path q" "q \<noteq> []" "CHR ''/'' \<notin> set h"
  shows "Join [Dir (join_sep q), h @ ''.'' @ Base (join_sep q)] = join_sep (butlast q @ [hashed_name h (last q)])"
proof -
  have vl: "valid_name (last q)" using assms(1,2) by (simp add: valid_path_def list_all_iff)
  have vb: "valid_path (butlast q)" using assms(1) by (rule valid_path_butlast)
  have "Join [render False (butlast q), hashed_name h (last q)] = render False (butlast q @ [hashed_name h (last q)])"
    using Join_render_snoc [OF cleaned_valid [OF vb] valid_hashed_name [OF assms(3) vl]] .
  then show ?thesis using assms by (simp add: Dir_join_sep Base_join_sep render_def hashed_name_def)
qed

section \<open>The file system: lookups and updates\<close>

lemma node_at_put_node:
  "node_at (put_node p n fs) q = (if q = [] then Some Directory else if q = p then Some n else node_at fs q)"
  by (simp add: node_at_def put_node_def update_conv')

lemma node_at_del_node:
  "node_at (del_node p fs) q = (if q = [] then Some Directory else if q = p then None else node_at fs q)"
  by (simp add: node_at_def del_node_def delete_conv')

lemma immutable_put_node [simp]: "immutable (put_node p n fs) = immutable fs"
  by (simp add: put_node_def)

lemma immutable_del_node [simp]: "immutable (del_node p fs) = immutable fs"
  by (simp add: del_node_def)

lemma node_at_nil [simp]: "node_at fs [] = Some Directory"
  by (simp add: node_at_def)

text \<open>The paths that have an entry.\<close>

lemma keys_put_node: "fst ` set (nodes (put_node p n fs)) = insert p (fst ` set (nodes fs))"
  by (simp add: put_node_def dom_update)

lemma keys_del_node: "fst ` set (nodes (del_node p fs)) = fst ` set (nodes fs) - {p}"
  by (auto simp: del_node_def AList.delete_eq image_iff)

lemma node_at_key: "node_at fs p = Some n \<Longrightarrow> p \<noteq> [] \<Longrightarrow> p \<in> fst ` set (nodes fs)"
  by (auto simp: node_at_def dest: map_of_SomeD intro: rev_image_eqI)

lemma key_node_at: "p \<in> fst ` set (nodes fs) \<Longrightarrow> node_at fs p \<noteq> None"
  by (cases "p = []") (simp_all add: node_at_def map_of_eq_None_iff)

subsection \<open>Looking a path up\<close>

lemma namei_cong:
  "(\<And>q. prefix p q \<Longrightarrow> prefix q (p @ cs) \<Longrightarrow> node_at fs' q = node_at fs q)
     \<Longrightarrow> namei fs' p cs = namei fs p cs"
proof (induction cs arbitrary: p)
  case Nil
  then show ?case by simp
next
  case (Cons c cs)
  have a: "node_at fs' p = node_at fs p" using Cons.prems [of p] by simp
  have "namei fs' (p @ [c]) cs = namei fs (p @ [c]) cs"
  proof (rule Cons.IH)
    fix q assume "prefix (p @ [c]) q" "prefix q ((p @ [c]) @ cs)"
    then show "node_at fs' q = node_at fs q"
      using Cons.prems [of q] by (simp add: append_prefixD)
  qed
  then show ?case using a by (simp split: option.splits node.splits)
qed

lemma namei_Inr:
  "namei fs p cs = Inr n \<Longrightarrow>
     node_at fs (p @ cs) = Some n \<and>
     (\<forall>q. prefix p q \<and> strict_prefix q (p @ cs) \<longrightarrow> node_at fs q = Some Directory)"
proof (induction cs arbitrary: p)
  case Nil
  then show ?case by (auto split: option.splits)
next
  case (Cons c cs)
  then have d: "node_at fs p = Some Directory" and r: "namei fs (p @ [c]) cs = Inr n"
    by (auto split: option.splits node.splits)
  have ih: "node_at fs (p @ c # cs) = Some n"
    "\<And>q. prefix (p @ [c]) q \<Longrightarrow> strict_prefix q (p @ c # cs) \<Longrightarrow> node_at fs q = Some Directory"
    using Cons.IH [OF r] by auto
  have "node_at fs q = Some Directory" if pq: "prefix p q" and sq: "strict_prefix q (p @ c # cs)" for q
  proof (cases "q = p")
    case True
    then show ?thesis using d by simp
  next
    case False
    obtain ys where "q = p @ ys" using pq by (auto simp: prefix_def)
    then obtain z zs where q: "q = p @ z # zs" using False by (cases ys) auto
    then have "z = c" using sq by (auto simp: strict_prefix_def prefix_def)
    then have "prefix (p @ [c]) q" using q by simp
    then show ?thesis using ih(2) sq by simp
  qed
  then show ?case using ih(1) by blast
qed

lemma namei_dirs:
  "(\<And>q. prefix p q \<Longrightarrow> strict_prefix q (p @ cs) \<Longrightarrow> node_at fs q = Some Directory)
     \<Longrightarrow> namei fs p cs = (case node_at fs (p @ cs) of None \<Rightarrow> Inl ENOENT | Some n \<Rightarrow> Inr n)"
proof (induction cs arbitrary: p)
  case Nil
  then show ?case by simp
next
  case (Cons c cs)
  have d: "node_at fs p = Some Directory" using Cons.prems [of p] by (simp add: strict_prefix_def)
  have "namei fs (p @ [c]) cs = (case node_at fs ((p @ [c]) @ cs) of None \<Rightarrow> Inl ENOENT | Some n \<Rightarrow> Inr n)"
  proof (rule Cons.IH)
    fix q assume "prefix (p @ [c]) q" "strict_prefix q ((p @ [c]) @ cs)"
    then show "node_at fs q = Some Directory" using Cons.prems [of q] by (simp add: append_prefixD)
  qed
  then show ?case using d by simp
qed

lemma namei_no_file_ENOENT:
  "node_at fs (p @ cs) = None \<Longrightarrow>
   (\<And>q b. prefix p q \<Longrightarrow> prefix q (p @ cs) \<Longrightarrow> node_at fs q \<noteq> Some (Regular b))
     \<Longrightarrow> namei fs p cs = Inl ENOENT"
proof (induction cs arbitrary: p)
  case Nil
  then show ?case by simp
next
  case (Cons c cs)
  have "namei fs (p @ [c]) cs = Inl ENOENT"
  proof (rule Cons.IH)
    show "node_at fs ((p @ [c]) @ cs) = None" using Cons.prems(1) by simp
    fix q b assume "prefix (p @ [c]) q" "prefix q ((p @ [c]) @ cs)"
    then show "node_at fs q \<noteq> Some (Regular b)" using Cons.prems(2) [of q b] by (simp add: append_prefixD)
  qed
  moreover have "\<And>b. node_at fs p \<noteq> Some (Regular b)" using Cons.prems(2) [of p] by simp
  ultimately show ?case by (auto split: option.splits node.splits)
qed

lemma names_ok_iff: "names_ok fs \<longleftrightarrow> (\<forall>p\<in>fst ` set (nodes fs). valid_path p)"
  by (auto simp: names_ok_def list_all_iff)

lemma names_ok_put_node: "names_ok fs \<Longrightarrow> valid_path p \<Longrightarrow> names_ok (put_node p n fs)"
  by (simp add: names_ok_iff keys_put_node)

lemma names_ok_del_node: "names_ok fs \<Longrightarrow> names_ok (del_node p fs)"
  by (auto simp: names_ok_iff keys_del_node)

lemma valid_path_prefix: "valid_path p \<Longrightarrow> prefix q p \<Longrightarrow> valid_path q"
  by (auto simp: prefix_def)

subsection \<open>Making directories\<close>

lemma mkdirs_ok:
  "mkdirs fs qs = (None, fs') \<Longrightarrow>
     (\<forall>p. node_at fs' p = (if p \<in> set qs then Some Directory else node_at fs p)) \<and>
     immutable fs' = immutable fs \<and>
     fst ` set (nodes fs') \<subseteq> fst ` set (nodes fs) \<union> set qs"
proof (induction qs arbitrary: fs)
  case Nil
  then show ?case by simp
next
  case (Cons q qs)
  show ?case
  proof (cases "node_at fs q")
    case None
    then have r: "mkdirs (put_node q Directory fs) qs = (None, fs')" using Cons.prems by simp
    show ?thesis using Cons.IH [OF r] by (auto simp: node_at_put_node keys_put_node)
  next
    case (Some n)
    then have n: "n = Directory" and r: "mkdirs fs qs = (None, fs')"
      using Cons.prems by (auto split: node.splits)
    show ?thesis using Cons.IH [OF r] Some n by auto
  qed
qed

lemma mkdirs_err: "mkdirs fs qs = (Some e, fs') \<Longrightarrow> e = ENOTDIR"
  by (induction qs arbitrary: fs) (auto split: option.splits node.splits)

lemma MkdirAll_ok:
  assumes "MkdirAll fs s = (None, fs')"
  shows "node_at fs' p = (if prefix p (pathOf s) then Some Directory else node_at fs p)"
    and "immutable fs' = immutable fs"
    and "fst ` set (nodes fs') \<subseteq> fst ` set (nodes fs) \<union> {p. prefix p (pathOf s)}"
    and "names_ok fs \<Longrightarrow> names_ok fs'"
    and "namei fs' [] (pathOf s) = Inr Directory"
proof -
  note m = mkdirs_ok [OF assms [unfolded MkdirAll_def]]
  show a: "node_at fs' p = (if prefix p (pathOf s) then Some Directory else node_at fs p)" for p
    using m by (simp add: in_set_prefixes)
  show "immutable fs' = immutable fs" using m by simp
  show k: "fst ` set (nodes fs') \<subseteq> fst ` set (nodes fs) \<union> {p. prefix p (pathOf s)}"
    using m by (auto simp: in_set_prefixes)
  show "names_ok fs \<Longrightarrow> names_ok fs'"
    using k valid_path_prefix [OF valid_pathOf] unfolding names_ok_iff by blast
  have "namei fs' [] (pathOf s) = (case node_at fs' ([] @ pathOf s) of None \<Rightarrow> Inl ENOENT | Some n \<Rightarrow> Inr n)"
    by (rule namei_dirs) (simp add: a strict_prefix_def)
  then show "namei fs' [] (pathOf s) = Inr Directory" by (simp add: a)
qed

subsection \<open>Creating and writing files\<close>

lemma Create_ok:
  assumes "Create fs s = (Inr h, fs')"
  shows "h = pathOf s" and "fs' = put_node h (Regular []) fs" and "h \<noteq> []"
    and "namei fs [] (butlast h) = Inr Directory" and "h \<notin> set (immutable fs)"
    and "node_at fs h \<noteq> Some Directory"
  using assms
  by (auto simp: Create_def Let_def split: sum.splits node.splits option.splits if_splits)

lemma Create_err: "Create fs s = (Inl e, fs') \<Longrightarrow> fs' = fs"
  by (auto simp: Create_def Let_def split: sum.splits node.splits option.splits if_splits)

lemma WriteFile_ok:
  assumes "WriteFile fs s b = (None, fs')"
  shows "node_at fs' p = (if p = pathOf s then Some (Regular b) else node_at fs p)"
    and "Lstat fs' s = Inr (Regular b)"
    and "immutable fs' = immutable fs"
proof -
  obtain h fs1 where c: "Create fs s = (Inr h, fs1)" and f: "fs' = write_handle h b fs1"
    using assms by (auto simp: WriteFile_def split: prod.splits sum.splits)
  note k = Create_ok [OF c]
  show a: "node_at fs' p = (if p = pathOf s then Some (Regular b) else node_at fs p)" for p
    using f k(1,2,3) by (auto simp: write_handle_def node_at_put_node)
  show "immutable fs' = immutable fs" using f k(2) by (simp add: write_handle_def)
  have d: "node_at fs q = Some Directory" if "strict_prefix q h" for q
    using namei_Inr [OF k(4)] that k(3) by (auto simp: strict_prefix_def prefix_snoc dest!: spec [of _ q])
       (metis append_butlast_last_id prefix_snoc)
  have "namei fs' [] h = (case node_at fs' ([] @ h) of None \<Rightarrow> Inl ENOENT | Some n \<Rightarrow> Inr n)"
  proof (rule namei_dirs)
    fix q assume "prefix [] q" "strict_prefix q ([] @ h)"
    then show "node_at fs' q = Some Directory" using d [of q] a [of q] k(1) by auto
  qed
  then show "Lstat fs' s = Inr (Regular b)" using a [of h] k(1) by (simp add: Lstat_def)
qed

lemma cleaned_butlast: 
  assumes c: "cleaned r out"
  shows "cleaned r (butlast out)"
proof (cases "out = []")
  case True
  then show ?thesis using c by simp
next
  case False
  then obtain bl l where q: "out = bl @ [l]" by (metis rev_exhaust)
  have "list_all plain bl" using c q by (simp add: cleaned_def)
  moreover have "valid_path (dropdots bl)"
  proof (cases "dropdots bl = []")
    case True then show ?thesis by (simp add: valid_path_def)
  next
    case False
    then have "dropdots (bl @ [l]) = dropdots bl @ [l]" by (induction bl) (auto simp: dropdots_def)
    then show ?thesis using c q by (simp add: cleaned_def)
  qed
  moreover have "r \<longrightarrow> valid_path bl" using c q by (simp add: cleaned_def)
  ultimately show ?thesis using q by (simp add: cleaned_def)
qed

lemma dropdots_butlast_all: "dropdots (butlast out) = butlast (dropdots out)"
proof (cases "dropdots out = []")
  case True
  then have "\<forall>c\<in>set out. c = ''..''" by (simp add: dropdots_def)
  then have "\<forall>c\<in>set (butlast out). c = ''..''" by (auto dest: in_set_butlastD)
  then have "dropdots (butlast out) = []" by (simp add: dropdots_def)
  then show ?thesis using True by simp
next
  case False
  then show ?thesis by (rule dropdots_butlast)
qed

lemma pathOf_Dir_render:
  assumes c: "cleaned r out"
  shows "pathOf (Dir (render r out)) = butlast (pathOf (render r out))"
proof (cases "out = []")
  case True
  then show ?thesis
    by (cases r) (simp_all add: render_def Dir_def Clean_def clean_elems_def clean_step_def pathOf_def)
next
  case False
  show ?thesis
    using Dir_render [OF c False] pathOf_render [OF c] pathOf_render [OF cleaned_butlast [OF c]]
    by (simp add: dropdots_butlast_all)
qed

lemma pathOf_Dir_Clean: "pathOf (Dir (Clean s)) = butlast (pathOf (Clean s))"
proof (cases "s = []")
  case True
  then show ?thesis using pathOf_Dir_render [OF cleaned_nil, of False] by (simp add: Clean_def [of "[]"] render_def)
next
  case False
  then have "Clean s = render (hd s = CHR ''/'') (clean_elems (hd s = CHR ''/'') (split_sep s))"
    by (simp add: Clean_render_def)
  then show ?thesis using pathOf_Dir_render [OF cleaned_clean_elems] by simp
qed

lemma pathOf_Dir_Join: "pathOf (Dir (Join xs)) = butlast (pathOf (Join xs))"
proof (cases "dropWhile (\<lambda>e. e = []) xs")
  case Nil
  have "Join xs = []" unfolding Join_def Nil by simp
  then show ?thesis by (simp add: Dir_def Clean_def [of "[]"])
next
  case (Cons a list)
  then have "Join xs = Clean (join_sep (a # list))" by (simp add: Join_def)
  then show ?thesis using pathOf_Dir_Clean by simp
qed

lemma prefix_butlast_strict: "h \<noteq> [] \<Longrightarrow> prefix p (butlast h) \<longleftrightarrow> strict_prefix p h"
proof -
  assume "h \<noteq> []"
  then obtain bl l where h: "h = bl @ [l]" by (metis rev_exhaust)
  show ?thesis unfolding h by (auto simp: strict_prefix_def prefix_snoc)
qed

lemma createRepoFile_ok:
  assumes "createRepoFile f path fs = (Inr h, fs')"
  shows "h = pathOf (Join [repoDir f, path])" and "h \<noteq> []"
    and "node_at fs' p = (if p = h then Some (Regular []) else if strict_prefix p h then Some Directory else node_at fs p)"
    and "immutable fs' = immutable fs"
    and "fst ` set (nodes fs') \<subseteq> fst ` set (nodes fs) \<union> {p. prefix p h}"
proof -
  let ?dst = "Join [repoDir f, path]"
  obtain fs1 where m: "MkdirAll fs (Dir ?dst) = (None, fs1)" and c: "Create fs1 ?dst = (Inr h, fs')"
    using assms by (auto simp: createRepoFile_def Let_def split: prod.splits option.splits)
  note k = Create_ok [OF c]
  note mk = MkdirAll_ok [OF m]
  show "h = pathOf ?dst" by (rule k(1))
  show "h \<noteq> []" by (rule k(3))
  have d: "pathOf (Dir ?dst) = butlast h" using k(1) pathOf_Dir_Join by simp
  show "node_at fs' p = (if p = h then Some (Regular []) else if strict_prefix p h then Some Directory else node_at fs p)"
    using k(2,3) mk(1) [of p] d by (auto simp: node_at_put_node prefix_butlast_strict)
  show "immutable fs' = immutable fs" using k(2) mk(2) by simp
  show "fst ` set (nodes fs') \<subseteq> fst ` set (nodes fs) \<union> {p. prefix p h}"
    using k(2,3) mk(3) d by (auto simp: keys_put_node prefix_butlast_strict)
qed

lemma create_files_Cons:
  assumes "create_files f (path # paths) files0 fs = (Inr files1, fs')"
  obtains h fs1 where "createRepoFile f path fs = (Inr h, fs1)"
    and "create_files f paths (files0 @ [h]) fs1 = (Inr files1, fs')"
  using assms by (auto split: prod.splits sum.splits)

lemma create_files_handles:
  "create_files f paths files0 fs = (Inr files1, fs') \<Longrightarrow>
     files1 = files0 @ map (\<lambda>path. pathOf (Join [repoDir f, path])) paths"
proof (induction paths arbitrary: files0 fs)
  case Nil
  then show ?case by simp
next
  case (Cons path paths)
  from Cons.prems obtain h fs1 where c: "createRepoFile f path fs = (Inr h, fs1)"
    and r: "create_files f paths (files0 @ [h]) fs1 = (Inr files1, fs')"
    by (rule create_files_Cons)
  show ?case using Cons.IH [OF r] createRepoFile_ok(1) [OF c] by simp
qed

lemma create_files_immutable:
  "create_files f paths files0 fs = (Inr files1, fs') \<Longrightarrow> immutable fs' = immutable fs"
proof (induction paths arbitrary: files0 fs)
  case Nil
  then show ?case by simp
next
  case (Cons path paths)
  from Cons.prems obtain h fs1 where c: "createRepoFile f path fs = (Inr h, fs1)"
    and r: "create_files f paths (files0 @ [h]) fs1 = (Inr files1, fs')"
    by (rule create_files_Cons)
  show ?case using Cons.IH [OF r] createRepoFile_ok(4) [OF c] by simp
qed

lemma create_files_nonempty:
  "create_files f paths files0 fs = (Inr files1, fs') \<Longrightarrow>
     [] \<notin> (\<lambda>path. pathOf (Join [repoDir f, path])) ` set paths"
proof (induction paths arbitrary: files0 fs)
  case Nil
  then show ?case by simp
next
  case (Cons path paths)
  from Cons.prems obtain h fs1 where c: "createRepoFile f path fs = (Inr h, fs1)"
    and r: "create_files f paths (files0 @ [h]) fs1 = (Inr files1, fs')"
    by (rule create_files_Cons)
  show ?case using Cons.IH [OF r] createRepoFile_ok(1,2) [OF c] by auto
qed

lemma create_files_node_at:
  "create_files f paths files0 fs = (Inr files1, fs') \<Longrightarrow>
   p \<notin> (\<lambda>path. pathOf (Join [repoDir f, path])) ` set paths \<Longrightarrow>
     node_at fs' p =
       (if \<exists>path\<in>set paths. strict_prefix p (pathOf (Join [repoDir f, path]))
        then Some Directory else node_at fs p)"
proof (induction paths arbitrary: files0 fs)
  case Nil
  then show ?case by simp
next
  case (Cons path paths)
  from Cons.prems(1) obtain h fs1 where c: "createRepoFile f path fs = (Inr h, fs1)"
    and r: "create_files f paths (files0 @ [h]) fs1 = (Inr files1, fs')"
    by (rule create_files_Cons)
  note k = createRepoFile_ok [OF c]
  have ph: "p \<noteq> h" and pn: "p \<notin> (\<lambda>path. pathOf (Join [repoDir f, path])) ` set paths"
    using Cons.prems(2) k(1) by auto
  have "node_at fs' p =
       (if \<exists>path\<in>set paths. strict_prefix p (pathOf (Join [repoDir f, path]))
        then Some Directory else node_at fs1 p)"
    by (rule Cons.IH [OF r pn])
  moreover have "node_at fs1 p = (if strict_prefix p h then Some Directory else node_at fs p)"
    using k(3) [of p] ph by simp
  ultimately show ?case using k(1) by simp
qed

lemma create_files_keys:
  "create_files f paths files0 fs = (Inr files1, fs') \<Longrightarrow> x \<in> fst ` set (nodes fs') \<Longrightarrow>
     x \<in> fst ` set (nodes fs) \<or> (\<exists>path\<in>set paths. prefix x (pathOf (Join [repoDir f, path])))"
proof (induction paths arbitrary: files0 fs)
  case Nil
  then show ?case by simp
next
  case (Cons path paths)
  from Cons.prems(1) obtain h fs1 where c: "createRepoFile f path fs = (Inr h, fs1)"
    and r: "create_files f paths (files0 @ [h]) fs1 = (Inr files1, fs')"
    by (rule create_files_Cons)
  note k = createRepoFile_ok [OF c]
  from Cons.IH [OF r Cons.prems(2)]
  have "x \<in> fst ` set (nodes fs1) \<or> (\<exists>path\<in>set paths. prefix x (pathOf (Join [repoDir f, path])))" .
  then show ?case
  proof
    assume "x \<in> fst ` set (nodes fs1)"
    then have "x \<in> fst ` set (nodes fs) \<or> prefix x h" using k(5) by blast
    then show ?thesis using k(1) by auto
  next
    assume "\<exists>path\<in>set paths. prefix x (pathOf (Join [repoDir f, path]))"
    then show ?thesis by auto
  qed
qed

lemma copy_all_ok:
  "node_at (copy_all hs b fs) p = (if p \<in> set hs \<and> p \<noteq> [] then Some (Regular b) else node_at fs p)"
  "immutable (copy_all hs b fs) = immutable fs"
  "fst ` set (nodes (copy_all hs b fs)) = fst ` set (nodes fs) \<union> set hs"
proof -
  have "node_at (copy_all hs b fs) p = (if p \<in> set hs \<and> p \<noteq> [] then Some (Regular b) else node_at fs p) \<and>
    immutable (copy_all hs b fs) = immutable fs \<and>
    fst ` set (nodes (copy_all hs b fs)) = fst ` set (nodes fs) \<union> set hs"
    unfolding copy_all_def
    by (induction hs arbitrary: fs) (auto simp: write_handle_def node_at_put_node keys_put_node)
  then show "node_at (copy_all hs b fs) p = (if p \<in> set hs \<and> p \<noteq> [] then Some (Regular b) else node_at fs p)"
  "immutable (copy_all hs b fs) = immutable fs"
  "fst ` set (nodes (copy_all hs b fs)) = fst ` set (nodes fs) \<union> set hs" by auto
qed

subsection \<open>The layout of a store\<close>

lemma valid_repository [simp]: "valid_name ''repository''" "valid_name ''staged''" "valid_name ''targets''" "valid_name ''keys''"
  by (simp_all add: valid_name_def)

lemma repoPath_eq: "repoPath f = pathOf (dir f) @ [''repository'']"
  by (simp add: repoPath_def repoDir_def pathOf_Join_name)

lemma stagedPath_eq: "stagedPath f = pathOf (dir f) @ [''staged'']"
  by (simp add: stagedPath_def stagedDir_def pathOf_Join_name)

lemma pathOf_walk_name: "valid_path q \<Longrightarrow> pathOf (walk_name root q) = pathOf root @ q"
proof (induction q arbitrary: root)
  case Nil
  then show ?case by (simp add: walk_name_def)
next
  case (Cons n q)
  then have "pathOf (walk_name (Join [root, n]) q) = pathOf (Join [root, n]) @ q"
    by (simp add: valid_path_def)
  then show ?case using Cons.prems by (simp add: walk_name_def pathOf_Join_name valid_path_def)
qed

lemma Rel_walk_name:
  assumes "valid_name n" "valid_path q"
  shows "Rel (Join [d, n]) (walk_name (Join [d, n]) q) = Inr (rel_of q)"
proof -
  obtain r out where c: "cleaned r out" and j: "Join [d, n] = render r (out @ [n])"
    using Join_name_render [OF assms(1)] by blast
  have c': "cleaned r (out @ [n])" using c assms(1) by (rule cleaned_snoc_valid)
  show ?thesis
    using Rel_render [OF c' _ assms(2)] walk_name_render [OF c' assms(2)] j
    by (simp add: rel_of_def)
qed

lemma sep_free_values:
  assumes "sep_free hashes" "(alg, h) \<in> set (hash_values hashes p)"
  shows "CHR ''/'' \<notin> set h"
proof (cases "hashes p")
  case None
  then show ?thesis using assms(2) by (simp add: hash_values_def)
next
  case (Some hs)
  then have "list_all (\<lambda>(alg, h). CHR ''/'' \<notin> set h) hs" using assms(1) by (simp add: sep_free_def)
  moreover have "(alg, h) \<in> set hs" using assms(2) Some by (simp add: hash_values_def)
  ultimately show ?thesis by (auto simp: list_all_iff)
qed

lemma hex_sep_free: "hex_hashes hashes \<Longrightarrow> sep_free hashes"
  by (fastforce simp: hex_hashes_def sep_free_def is_hex_def list_all_iff)

lemma copy_dsts_shape:
  assumes "t \<in> set (copy_dsts cs hashes q)" "q \<noteq> []"
  shows "t \<noteq> []" "butlast t = butlast q"
  using assms by (auto simp: copy_dsts_def split: if_splits)

lemma copy_dsts_valid:
  assumes "t \<in> set (copy_dsts cs hashes q)" "q \<noteq> []" "valid_path q" "sep_free hashes"
  shows "valid_path t"
proof -
  have vl: "valid_name (last q)" using assms(2,3) by (simp add: valid_path_def list_all_iff)
  have vb: "valid_path (butlast q)" using assms(3) by (rule valid_path_butlast)
  from assms(1) consider "t = q"
    | alg h where "(alg, h) \<in> set (hash_values hashes (join_sep q))" "t = butlast q @ [hashed_name h (last q)]"
    by (auto simp: copy_dsts_def split: if_splits)
  then show ?thesis
  proof cases
    case 1
    then show ?thesis using assms(3) by simp
  next
    case 2
    then show ?thesis using vb valid_hashed_name [OF sep_free_values [OF assms(4) 2(1)] vl]
      by (simp add: valid_path_def)
  qed
qed

lemma copyPaths_handles:
  assumes "valid_path q" "q \<noteq> []" "sep_free hashes"
  shows "map (\<lambda>path. pathOf (Join [repoDir f, path])) (copyPaths cs hashes (join_sep q))
         = map ((@) (repoPath f)) (copy_dsts cs hashes q)"
proof -
  have vl: "valid_name (last q)" using assms(1,2) by (simp add: valid_path_def list_all_iff)
  have vb: "valid_path (butlast q)" using assms(1) by (rule valid_path_butlast)
  have u: "pathOf (Join [repoDir f, join_sep q]) = repoPath f @ q"
    using assms by (simp add: pathOf_Join_rel repoPath_def)
  have h: "pathOf (Join [repoDir f, Join [Dir (join_sep q), h @ ''.'' @ Base (join_sep q)]])
           = repoPath f @ butlast q @ [hashed_name h (last q)]"
    if "(alg, h) \<in> set (hash_values hashes (join_sep q))" for alg h
  proof -
    have s: "CHR ''/'' \<notin> set h" using sep_free_values [OF assms(3) that] .
    have "valid_path (butlast q @ [hashed_name h (last q)])"
      using vb valid_hashed_name [OF s vl] by (simp add: valid_path_def)
    then show ?thesis
      using hashed_path_join_sep [OF assms(1,2) s]
      by (simp add: pathOf_Join_rel repoPath_def)
  qed
  show ?thesis using u h
    by (auto simp: copyPaths_def copy_dsts_def hashedPaths_def)
qed

lemma mkdirs_no_file:
  "mkdirs fs qs = (None, fs') \<Longrightarrow> p \<in> set qs \<Longrightarrow> node_at fs p \<noteq> Some (Regular b)"
proof (induction qs arbitrary: fs)
  case Nil
  then show ?case by simp
next
  case (Cons q qs)
  show ?case
  proof (cases "node_at fs q")
    case None
    then have r: "mkdirs (put_node q Directory fs) qs = (None, fs')" using Cons.prems by simp
    show ?thesis
    proof (cases "p = q")
      case True
      then show ?thesis using None by simp
    next
      case False
      then have "node_at (put_node q Directory fs) p \<noteq> Some (Regular b)"
        using Cons.IH [OF r] Cons.prems(2) by simp
      then show ?thesis using False by (simp add: node_at_put_node split: if_splits)
    qed
  next
    case (Some n)
    then have n: "n = Directory" and r: "mkdirs fs qs = (None, fs')"
      using Cons.prems by (auto split: node.splits)
    show ?thesis using Cons.IH [OF r] Cons.prems(2) Some n by auto
  qed
qed

lemma createRepoFile_no_file:
  assumes "createRepoFile f path fs = (Inr h, fs')" "strict_prefix p h"
  shows "node_at fs p \<noteq> Some (Regular b)"
proof -
  let ?dst = "Join [repoDir f, path]"
  obtain fs1 where m: "MkdirAll fs (Dir ?dst) = (None, fs1)" and c: "Create fs1 ?dst = (Inr h, fs')"
    using assms(1) by (auto simp: createRepoFile_def Let_def split: prod.splits option.splits)
  note k = Create_ok [OF c]
  have d: "pathOf (Dir ?dst) = butlast h" using k(1) pathOf_Dir_Join by simp
  have "p \<in> set (prefixes (pathOf (Dir ?dst)))"
    using assms(2) d k(3) by (simp add: in_set_prefixes prefix_butlast_strict)
  then show ?thesis using mkdirs_no_file [OF m [unfolded MkdirAll_def]] by blast
qed

lemma create_files_no_file:
  "create_files f paths files0 fs = (Inr files1, fs') \<Longrightarrow>
   path \<in> set paths \<Longrightarrow> strict_prefix p (pathOf (Join [repoDir f, path])) \<Longrightarrow>
     node_at fs p \<noteq> Some (Regular b)"
proof (induction paths arbitrary: files0 fs b)
  case Nil
  then show ?case by simp
next
  case (Cons x paths)
  from Cons.prems(1) obtain h fs1 where c: "createRepoFile f x fs = (Inr h, fs1)"
    and r: "create_files f paths (files0 @ [h]) fs1 = (Inr files1, fs')"
    by (rule create_files_Cons)
  note k = createRepoFile_ok [OF c]
  show ?case
  proof (cases "path = x")
    case True
    then show ?thesis using createRepoFile_no_file [OF c] Cons.prems(3) k(1) by simp
  next
    case False
    then have ih: "\<And>b. node_at fs1 p \<noteq> Some (Regular b)"
      using Cons.IH [OF r] Cons.prems(2,3) by simp
    show ?thesis
    proof
      assume a: "node_at fs p = Some (Regular b)"
      then have "\<not> strict_prefix p h" using createRepoFile_no_file [OF c] by blast
      then have "node_at fs1 p = Some (Regular []) \<or> node_at fs1 p = Some (Regular b)"
        using k(3) [of p] a by simp
      then show False using ih by blast
    qed
  qed
qed

lemma createRepoFile_no_dir:
  assumes "createRepoFile f path fs = (Inr h, fs')"
  shows "node_at fs h \<noteq> Some Directory"
proof -
  let ?dst = "Join [repoDir f, path]"
  obtain fs1 where m: "MkdirAll fs (Dir ?dst) = (None, fs1)" and c: "Create fs1 ?dst = (Inr h, fs')"
    using assms(1) by (auto simp: createRepoFile_def Let_def split: prod.splits option.splits)
  note k = Create_ok [OF c]
  have d: "pathOf (Dir ?dst) = butlast h" using k(1) pathOf_Dir_Join by simp
  have "\<not> prefix h (butlast h)" using k(3) by (simp add: prefix_butlast_strict)
  then have "node_at fs1 h = node_at fs h" using MkdirAll_ok(1) [OF m, of h] d by simp
  then show ?thesis using k(6) by simp
qed

lemma create_files_no_dir:
  "create_files f paths files0 fs = (Inr files1, fs') \<Longrightarrow> path \<in> set paths \<Longrightarrow>
     node_at fs (pathOf (Join [repoDir f, path])) \<noteq> Some Directory"
proof (induction paths arbitrary: files0 fs)
  case Nil
  then show ?case by simp
next
  case (Cons x paths)
  from Cons.prems(1) obtain h fs1 where c: "createRepoFile f x fs = (Inr h, fs1)"
    and r: "create_files f paths (files0 @ [h]) fs1 = (Inr files1, fs')"
    by (rule create_files_Cons)
  note k = createRepoFile_ok [OF c]
  note nd = createRepoFile_no_dir [OF c]
  show ?case
  proof (cases "path = x")
    case True
    then show ?thesis using nd k(1) by simp
  next
    case False
    let ?p = "pathOf (Join [repoDir f, path])"
    have ih: "node_at fs1 ?p \<noteq> Some Directory"
      using Cons.IH [OF r] Cons.prems(2) False by simp
    show ?thesis
    proof
      assume a: "node_at fs ?p = Some Directory"
      then have "?p \<noteq> h" using nd by auto
      then have "node_at fs1 ?p = Some Directory" using k(3) [of ?p] a by simp
      then show False using ih by simp
    qed
  qed
qed

lemma prefix_fork:
  assumes "prefix u (d @ a # x)" "prefix u (d @ b # y)" "a \<noteq> b"
  shows "prefix u d"
proof (rule ccontr)
  assume n: "\<not> prefix u d"
  obtain z where z: "d @ a # x = u @ z" using assms(1) by (auto simp: prefix_def)
  obtain w where w: "d @ b # y = u @ w" using assms(2) by (auto simp: prefix_def)
  have "length d < length u"
  proof (rule ccontr)
    assume "\<not> length d < length u"
    then have "length u \<le> length d" by simp
    then have "take (length u) (d @ a # x) = take (length u) d" by simp
    then have "u = take (length u) d" using z by simp
    then show False using n by (metis take_is_prefix)
  qed
  then have "(d @ a # x) ! length d = u ! length d" "(d @ b # y) ! length d = u ! length d"
    using z w by (simp_all add: nth_append)
  then show False using assms(3) by simp
qed

lemma staged_not_under_repo: "\<not> prefix (repoPath f @ t) (stagedPath f @ q)"
proof
  assume "prefix (repoPath f @ t) (stagedPath f @ q)"
  then have "prefix (pathOf (dir f) @ [''repository'']) (pathOf (dir f) @ ''staged'' # q)"
    by (simp add: repoPath_eq stagedPath_eq append_prefixD)
  then show False by simp
qed

lemma repo_not_under_staged: "\<not> prefix (stagedPath f @ t) (repoPath f @ q)"
proof
  assume "prefix (stagedPath f @ t) (repoPath f @ q)"
  then have "prefix (pathOf (dir f) @ [''staged'']) (pathOf (dir f) @ ''repository'' # q)"
    by (simp add: repoPath_eq stagedPath_eq append_prefixD)
  then show False by simp
qed

lemma staged_repo_fork:
  assumes "prefix u (stagedPath f @ q)" "prefix u (repoPath f @ t)"
  shows "prefix u (pathOf (dir f))"
  using prefix_fork [of u "pathOf (dir f)" "''staged''" q "''repository''" t] assms
  by (simp add: repoPath_eq stagedPath_eq)

subsection \<open>Copying one staged file\<close>

lemma valid_repoPath: "valid_path (repoPath f)" and valid_stagedPath: "valid_path (stagedPath f)"
  by (simp_all add: repoPath_def stagedPath_def valid_pathOf)

lemma strict_prefix_dst:
  assumes "t \<in> set (copy_dsts cs hashes q)" "q \<noteq> []"
  shows "strict_prefix p (repoPath f @ t) \<longleftrightarrow> strict_prefix p (repoPath f @ q)"
proof -
  have "butlast (repoPath f @ t) = butlast (repoPath f @ q)"
    using copy_dsts_shape [OF assms] assms(2) by (simp add: butlast_append)
  moreover have "repoPath f @ t \<noteq> []" "repoPath f @ q \<noteq> []"
    using assms(2) copy_dsts_shape(1) [OF assms] by simp_all
  ultimately show ?thesis by (metis prefix_butlast_strict)
qed

lemma copyToRepo_dir: "copyToRepo f cs hashes path (Inr Directory) fs = (None, fs)"
  by (simp add: copyToRepo_def IsDir_def)

lemma copyToRepo_err: "copyToRepo f cs hashes path (Inl e) fs = (Some e, fs)"
  by (simp add: copyToRepo_def)

lemma copyToRepo_step:
  assumes v: "valid_path q" "q \<noteq> []" and sf: "sep_free hashes"
    and l: "Lstat fs (walk_name (stagedDir f) q) = Inr (Regular b)"
    and c: "copyToRepo f cs hashes (walk_name (stagedDir f) q) (Inr (Regular b)) fs = (None, fs')"
  shows "node_at fs' p =
           (if p \<in> (@) (repoPath f) ` set (copy_dsts cs hashes q) then Some (Regular b)
            else if copy_dsts cs hashes q \<noteq> [] \<and> strict_prefix p (repoPath f @ q) then Some Directory
            else node_at fs p)"
    and "copy_dsts cs hashes q \<noteq> [] \<Longrightarrow> strict_prefix p (repoPath f @ q) \<Longrightarrow>
           node_at fs p \<noteq> Some (Regular b')"
    and "immutable fs' = immutable fs"
    and "names_ok fs \<Longrightarrow> names_ok fs'"
    and "p \<in> (@) (repoPath f) ` set (copy_dsts cs hashes q) \<Longrightarrow> node_at fs p \<noteq> Some Directory"
proof -
  let ?path = "walk_name (stagedDir f) q"
  let ?paths = "copyPaths cs hashes (join_sep q)"
  let ?hd = "\<lambda>path. pathOf (Join [repoDir f, path])"
  have rel: "Rel (stagedDir f) ?path = Inr (join_sep q)"
    using Rel_walk_name [of "''staged''" q "dir f"] v by (simp add: stagedDir_def rel_of_def)
  have pp: "pathOf ?path = stagedPath f @ q"
    using v(1) by (simp add: pathOf_walk_name stagedPath_def)
  have nm: "namei fs [] (stagedPath f @ q) = Inr (Regular b)" using l pp by (simp add: Lstat_def)
  obtain files0 fs1 where cf: "create_files f ?paths [] fs = (Inr files0, fs1)"
    and rest: "(case Open fs1 ?path of Inl err \<Rightarrow> (Some err, fs1)
                | Inr staged \<Rightarrow> (case read_all staged of Inl err \<Rightarrow> (Some err, fs1)
                                  | Inr b \<Rightarrow> (None, copy_all files0 b fs1))) = (None, fs')"
    using c rel by (auto simp: copyToRepo_def IsDir_def IsRegular_def split: prod.splits sum.splits)
  have hs: "map ?hd ?paths = map ((@) (repoPath f)) (copy_dsts cs hashes q)"
    using v sf by (rule copyPaths_handles)
  then have hset: "?hd ` set ?paths = (@) (repoPath f) ` set (copy_dsts cs hashes q)"
    by (metis set_map)
  have f0: "files0 = map ((@) (repoPath f)) (copy_dsts cs hashes q)"
    using create_files_handles [OF cf] hs by simp
  have ex: "(\<exists>path\<in>set ?paths. strict_prefix u (?hd path))
            \<longleftrightarrow> copy_dsts cs hashes q \<noteq> [] \<and> strict_prefix u (repoPath f @ q)" for u
  proof -
    have "(\<exists>path\<in>set ?paths. strict_prefix u (?hd path))
          \<longleftrightarrow> (\<exists>h\<in>?hd ` set ?paths. strict_prefix u h)" by blast
    also have "\<dots> \<longleftrightarrow> (\<exists>t\<in>set (copy_dsts cs hashes q). strict_prefix u (repoPath f @ t))"
      unfolding hset by blast
    also have "\<dots> \<longleftrightarrow> (\<exists>t\<in>set (copy_dsts cs hashes q). strict_prefix u (repoPath f @ q))"
      using strict_prefix_dst [OF _ v(2)] by blast
    also have "\<dots> \<longleftrightarrow> copy_dsts cs hashes q \<noteq> [] \<and> strict_prefix u (repoPath f @ q)"
      by (cases "copy_dsts cs hashes q") auto
    finally show ?thesis .
  qed
  have n1: "node_at fs1 u =
             (if copy_dsts cs hashes q \<noteq> [] \<and> strict_prefix u (repoPath f @ q) then Some Directory
              else node_at fs u)"
    if "u \<notin> (@) (repoPath f) ` set (copy_dsts cs hashes q)" for u
    using create_files_node_at [OF cf, of u] that hset ex [of u] by simp
  show nf: "copy_dsts cs hashes q \<noteq> [] \<Longrightarrow> strict_prefix p (repoPath f @ q) \<Longrightarrow>
           node_at fs p \<noteq> Some (Regular b')" for p b'
    using create_files_no_file [OF cf, of _ p b'] ex [of p] by blast
  show "node_at fs p \<noteq> Some Directory" if "p \<in> (@) (repoPath f) ` set (copy_dsts cs hashes q)"
  proof -
    have "p \<in> ?hd ` set ?paths" using that hset by simp
    then obtain path where "path \<in> set ?paths" "p = ?hd path" by blast
    then show ?thesis using create_files_no_dir [OF cf] by simp
  qed
  have "namei fs1 [] (stagedPath f @ q) = namei fs [] (stagedPath f @ q)"
  proof (rule namei_cong)
    fix u assume "prefix [] u" and u: "prefix u ([] @ stagedPath f @ q)"
    have notin: "u \<notin> (@) (repoPath f) ` set (copy_dsts cs hashes q)"
      using u staged_not_under_repo [of f _ q] by auto
    show "node_at fs1 u = node_at fs u"
    proof (cases "copy_dsts cs hashes q \<noteq> [] \<and> strict_prefix u (repoPath f @ q)")
      case True
      then have "prefix u (pathOf (dir f))" using u staged_repo_fork [of u f q q] by (simp add: strict_prefix_def)
      then have "strict_prefix u (stagedPath f @ q)"
        by (auto simp: stagedPath_eq strict_prefix_def prefix_def)
      then have "node_at fs u = Some Directory" using namei_Inr [OF nm] by simp
      then show ?thesis using n1 [OF notin] True by simp
    next
      case False
      then show ?thesis using n1 [OF notin] by auto
    qed
  qed
  then have "Open fs1 ?path = Inr (Regular b)" using nm pp by (simp add: Open_def Lstat_def)
  then have fs': "fs' = copy_all files0 b fs1" using rest by (simp add: read_all_def)
  show "node_at fs' p =
           (if p \<in> (@) (repoPath f) ` set (copy_dsts cs hashes q) then Some (Regular b)
            else if copy_dsts cs hashes q \<noteq> [] \<and> strict_prefix p (repoPath f @ q) then Some Directory
            else node_at fs p)"
  proof (cases "p \<in> (@) (repoPath f) ` set (copy_dsts cs hashes q)")
    case True
    then have "p \<noteq> []" using copy_dsts_shape(1) [OF _ v(2)] by auto
    then show ?thesis using True fs' f0 by (simp add: copy_all_ok)
  next
    case False
    then show ?thesis using fs' f0 n1 [OF False] by (simp add: copy_all_ok)
  qed
  show "immutable fs' = immutable fs"
    using fs' create_files_immutable [OF cf] by (simp add: copy_all_ok)
  show "names_ok fs'" if ok: "names_ok fs"
    unfolding names_ok_iff
  proof
    fix x assume "x \<in> fst ` set (nodes fs')"
    then have "x \<in> fst ` set (nodes fs1) \<or> x \<in> set files0" using fs' by (simp add: copy_all_ok)
    then have "x \<in> fst ` set (nodes fs) \<or> (\<exists>path\<in>set ?paths. prefix x (?hd path))"
      using create_files_keys [OF cf, of x] create_files_handles [OF cf] by auto
    then show "valid_path x"
    proof
      assume "x \<in> fst ` set (nodes fs)"
      then show ?thesis using ok unfolding names_ok_iff by blast
    next
      assume "\<exists>path\<in>set ?paths. prefix x (?hd path)"
      then show ?thesis using valid_path_prefix [OF valid_pathOf] by blast
    qed
  qed
qed

subsection \<open>Copying the staged tree\<close>

lemma copyToRepo_effect:
  assumes "valid_path q" "q \<noteq> []" "sep_free hashes"
    and "Lstat fs (walk_name (stagedDir f) q) = Inr (Regular b)"
    and "copyToRepo f cs hashes (walk_name (stagedDir f) q) (Inr (Regular b)) fs = (None, fs')"
  shows "copy_effect f cs hashes q b fs fs'"
  unfolding copy_effect_def
proof (intro conjI allI impI ballI)
  fix p
  show "node_at fs' p =
         (if p \<in> (@) (repoPath f) ` set (copy_dsts cs hashes q) then Some (Regular b)
          else if copy_dsts cs hashes q \<noteq> [] \<and> strict_prefix p (repoPath f @ q) then Some Directory
               else node_at fs p)"
    by (rule copyToRepo_step(1) [OF assms])
next
  fix p b' assume "copy_dsts cs hashes q \<noteq> [] \<and> strict_prefix p (repoPath f @ q)"
  then show "node_at fs p \<noteq> Some (Regular b')"
    using copyToRepo_step(2) [OF assms] by blast
next
  fix p assume "p \<in> (@) (repoPath f) ` set (copy_dsts cs hashes q)"
  then show "node_at fs p \<noteq> Some Directory" by (rule copyToRepo_step(5) [OF assms])
next
  show "immutable fs' = immutable fs" by (rule copyToRepo_step(3) [OF assms])
qed

lemma outside_repo_prefix:
  assumes "\<not> prefix (repoPath f) p" "prefix p (repoPath f @ q)"
  shows "strict_prefix p (stagedPath f)"
proof -
  have "prefix p (repoPath f)" using assms by (auto simp: prefix_append)
  then have "strict_prefix p (repoPath f)" using assms(1) by (auto simp: strict_prefix_def)
  then have "prefix p (pathOf (dir f))" unfolding repoPath_eq by (auto simp: strict_prefix_def prefix_snoc)
  then show ?thesis by (auto simp: stagedPath_eq strict_prefix_def prefix_def)
qed

lemma Lstat_staged_same:
  assumes "same_outside (repoPath f) fs fsa" "valid_path q"
  shows "Lstat fsa (walk_name (stagedDir f) q) = Lstat fs (walk_name (stagedDir f) q)"
proof -
  have pp: "pathOf (walk_name (stagedDir f) q) = stagedPath f @ q"
    using assms(2) by (simp add: pathOf_walk_name stagedPath_def)
  have "namei fsa [] (stagedPath f @ q) = namei fs [] (stagedPath f @ q)"
  proof (rule namei_cong)
    fix u assume "prefix [] u" and u: "prefix u ([] @ stagedPath f @ q)"
    have "\<not> prefix (repoPath f) u"
    proof
      assume "prefix (repoPath f) u"
      then have "prefix (repoPath f @ []) (stagedPath f @ q)" using u by auto
      then show False using staged_not_under_repo by blast
    qed
    then show "node_at fsa u = node_at fs u" using assms(1) by (simp add: same_outside_def)
  qed
  then show ?thesis using pp by (simp add: Lstat_def)
qed

lemma copy_effect_same_outside:
  assumes e: "copy_effect f cs hashes q b fsa fsb" and q: "q \<noteq> []"
    and base: "namei fs [] (stagedPath f) = Inr Directory"
    and s: "same_outside (repoPath f) fs fsa"
  shows "same_outside (repoPath f) fs fsb"
  unfolding same_outside_def
proof (intro allI impI)
  fix p assume np: "\<not> prefix (repoPath f) p"
  have a: "node_at fsa p = node_at fs p" using s np by (simp add: same_outside_def)
  have h: "p \<notin> (@) (repoPath f) ` set (copy_dsts cs hashes q)" using np by auto
  show "node_at fsb p = node_at fs p"
  proof (cases "copy_dsts cs hashes q \<noteq> [] \<and> strict_prefix p (repoPath f @ q)")
    case True
    then have "strict_prefix p (stagedPath f)"
      using outside_repo_prefix [OF np, of q] by (simp add: strict_prefix_def)
    then have "node_at fs p = Some Directory" using namei_Inr [OF base] by simp
    then show ?thesis using e h True by (simp add: copy_effect_def)
  next
    case False
    then show ?thesis using e h a by (auto simp: copy_effect_def)
  qed
qed

lemma walk_copy_induct:
  assumes w: "walk_entries (stagedDir f) (copyToRepo f cs hashes) qs fs0 = (None, fs1)"
    and qs: "\<forall>q\<in>set qs. valid_path q \<and> q \<noteq> []"
    and sf: "sep_free hashes"
    and base: "namei fs [] (stagedPath f) = Inr Directory"
    and s0: "same_outside (repoPath f) fs fs0"
    and i0: "I qs fs0"
    and dirstep: "\<And>q rest fsa. I (q # rest) fsa \<Longrightarrow> same_outside (repoPath f) fs fsa \<Longrightarrow>
        Lstat fs (walk_name (stagedDir f) q) = Inr Directory \<Longrightarrow> I rest fsa"
    and filestep: "\<And>q rest b fsa fsb. I (q # rest) fsa \<Longrightarrow> same_outside (repoPath f) fs fsa \<Longrightarrow>
        valid_path q \<Longrightarrow> q \<noteq> [] \<Longrightarrow>
        Lstat fs (walk_name (stagedDir f) q) = Inr (Regular b) \<Longrightarrow>
        copy_effect f cs hashes q b fsa fsb \<Longrightarrow> I rest fsb"
  shows "I [] fs1 \<and> same_outside (repoPath f) fs fs1"
  using w qs s0 i0
proof (induction qs arbitrary: fs0)
  case Nil
  then show ?case by simp
next
  case (Cons q qs)
  let ?name = "walk_name (stagedDir f) q"
  have vq: "valid_path q" "q \<noteq> []" using Cons.prems(2) by simp_all
  have ls: "Lstat fs0 ?name = Lstat fs ?name" using Lstat_staged_same [OF Cons.prems(3) vq(1)] .
  obtain fs2 where st: "copyToRepo f cs hashes ?name (Lstat fs0 ?name) fs0 = (None, fs2)"
    and r: "walk_entries (stagedDir f) (copyToRepo f cs hashes) qs fs2 = (None, fs1)"
    using Cons.prems(1) by (auto simp: Let_def split: prod.splits option.splits)
  have "I qs fs2 \<and> same_outside (repoPath f) fs fs2"
  proof (cases "Lstat fs0 ?name")
    case (Inl e)
    then show ?thesis using st by (simp add: copyToRepo_err)
  next
    case (Inr n)
    show ?thesis
    proof (cases n)
      case Directory
      then have "fs2 = fs0" using st Inr by (simp add: copyToRepo_dir)
      then show ?thesis using dirstep [OF Cons.prems(4) Cons.prems(3)] ls Inr Directory Cons.prems(3) by simp
    next
      case (Regular b)
      have e: "copy_effect f cs hashes q b fs0 fs2"
        using copyToRepo_effect [OF vq sf, of fs0 f b cs fs2] st Inr Regular by simp
      have "I qs fs2"
        using filestep [OF Cons.prems(4) Cons.prems(3) vq _ e] ls Inr Regular by simp
      then show ?thesis using copy_effect_same_outside [OF e vq(2) base Cons.prems(3)] by simp
    qed
  qed
  then show ?case using Cons.IH [OF r] Cons.prems(2) by simp
qed

subsection \<open>Removing stale files\<close>

lemma names_ok_node_at: "names_ok fs \<longleftrightarrow> (\<forall>p. node_at fs p \<noteq> None \<longrightarrow> valid_path p)"
proof
  assume ok: "names_ok fs"
  show "\<forall>p. node_at fs p \<noteq> None \<longrightarrow> valid_path p"
  proof (intro allI impI)
    fix p assume "node_at fs p \<noteq> None"
    then show "valid_path p"
      using ok node_at_key [of fs p] unfolding names_ok_iff
      by (cases "p = []") (auto simp: valid_path_def)
  qed
next
  assume a: "\<forall>p. node_at fs p \<noteq> None \<longrightarrow> valid_path p"
  show "names_ok fs" unfolding names_ok_iff using a key_node_at by blast
qed

lemma Remove_file:
  assumes "Remove fs s = (e, fs')" "namei fs [] (pathOf s) = Inr (Regular b)" "pathOf s \<noteq> []"
  shows "fs' = (if pathOf s \<in> set (immutable fs) then fs else del_node (pathOf s) fs)"
  using assms by (auto simp: Remove_def Let_def IsDir_def split: if_splits)

lemma removeFile_err: "removeFile f cs hashes path (Inl e) fs = (Some e, fs)"
  by (simp add: removeFile_def)

lemma removeFile_step:
  assumes v: "valid_path t" "t \<noteq> []"
    and l: "Lstat fs (walk_name (repoDir f) t) = Inr info"
    and c: "removeFile f cs hashes (walk_name (repoDir f) t) (Inr info) fs = (None, fs')"
  shows "fs' = (if info \<noteq> Directory \<and> gc_removes cs hashes t \<and> repoPath f @ t \<notin> set (immutable fs)
                then del_node (repoPath f @ t) fs else fs)"
    and "info \<noteq> Directory \<Longrightarrow> isTarget (join_sep t) \<Longrightarrow>
           \<exists>v. needsRemoval cs hashes (join_sep t) = Inr v"
proof -
  let ?name = "walk_name (repoDir f) t"
  have rel: "Rel (repoDir f) ?name = Inr (join_sep t)"
    using Rel_walk_name [of "''repository''" t "dir f"] v by (simp add: repoDir_def rel_of_def)
  have pp: "pathOf ?name = repoPath f @ t"
    using v(1) by (simp add: pathOf_walk_name repoPath_def)
  show "fs' = (if info \<noteq> Directory \<and> gc_removes cs hashes t \<and> repoPath f @ t \<notin> set (immutable fs)
                then del_node (repoPath f @ t) fs else fs)"
  proof (cases info)
    case Directory
    then show ?thesis using c rel by (simp add: removeFile_def IsDir_def)
  next
    case (Regular b)
    have nm: "namei fs [] (pathOf ?name) = Inr (Regular b)" using l Regular by (simp add: Lstat_def)
    show ?thesis
    proof (cases "gc_removes cs hashes t")
      case True
      obtain e where "Remove fs ?name = (e, fs')"
        using c rel Regular True
        by (auto simp: removeFile_def IsDir_def gc_removes_def split: prod.splits)
      then show ?thesis using Remove_file [OF _ nm] pp v(2) Regular True by simp
    next
      case False
      then show ?thesis using c rel Regular
        by (auto simp: removeFile_def IsDir_def gc_removes_def split: sum.splits bool.splits prod.splits if_splits)
    qed
  qed
  show "info \<noteq> Directory \<Longrightarrow> isTarget (join_sep t) \<Longrightarrow>
           \<exists>v. needsRemoval cs hashes (join_sep t) = Inr v"
    using c rel by (auto simp: removeFile_def IsDir_def split: sum.splits)
qed

lemma walk_remove_Cons:
  assumes "walk_entries (repoDir f) (removeFile f cs hashes) (t # ts) fs0 = (None, fs2)"
  obtains info fs1 where "Lstat fs0 (walk_name (repoDir f) t) = Inr info"
    and "removeFile f cs hashes (walk_name (repoDir f) t) (Inr info) fs0 = (None, fs1)"
    and "walk_entries (repoDir f) (removeFile f cs hashes) ts fs1 = (None, fs2)"
proof -
  let ?name = "walk_name (repoDir f) t"
  obtain fs1 where st: "removeFile f cs hashes ?name (Lstat fs0 ?name) fs0 = (None, fs1)"
    and r: "walk_entries (repoDir f) (removeFile f cs hashes) ts fs1 = (None, fs2)"
    using assms by (auto simp: Let_def split: prod.splits option.splits)
  obtain info where "Lstat fs0 ?name = Inr info"
    using st by (cases "Lstat fs0 ?name") (auto simp: removeFile_err)
  then show ?thesis using that st r by simp
qed

lemma walk_remove_frame:
  assumes "walk_entries (repoDir f) (removeFile f cs hashes) ts fs0 = (None, fs2)"
    and "\<forall>t\<in>set ts. valid_path t \<and> t \<noteq> []"
  shows "immutable fs2 = immutable fs0"
    and "node_at fs2 p = node_at fs0 p \<or>
          (node_at fs2 p = None \<and> (\<exists>t\<in>set ts. p = repoPath f @ t \<and> gc_removes cs hashes t) \<and>
           (\<exists>b. node_at fs0 p = Some (Regular b)) \<and> p \<notin> set (immutable fs0))"
proof -
  have "immutable fs2 = immutable fs0 \<and> (node_at fs2 p = node_at fs0 p \<or>
          (node_at fs2 p = None \<and> (\<exists>t\<in>set ts. p = repoPath f @ t \<and> gc_removes cs hashes t) \<and>
           (\<exists>b. node_at fs0 p = Some (Regular b)) \<and> p \<notin> set (immutable fs0)))"
    using assms
  proof (induction ts arbitrary: fs0)
    case Nil
    then show ?case by simp
  next
    case (Cons t ts)
    from Cons.prems(1) obtain info fs1 where l: "Lstat fs0 (walk_name (repoDir f) t) = Inr info"
      and st: "removeFile f cs hashes (walk_name (repoDir f) t) (Inr info) fs0 = (None, fs1)"
      and r: "walk_entries (repoDir f) (removeFile f cs hashes) ts fs1 = (None, fs2)"
      by (rule walk_remove_Cons)
    have vt: "valid_path t" "t \<noteq> []" using Cons.prems(2) by simp_all
    note s = removeFile_step(1) [OF vt l st]
    have ih: "immutable fs2 = immutable fs1 \<and> (node_at fs2 p = node_at fs1 p \<or>
          (node_at fs2 p = None \<and> (\<exists>t\<in>set ts. p = repoPath f @ t \<and> gc_removes cs hashes t) \<and>
           (\<exists>b. node_at fs1 p = Some (Regular b)) \<and> p \<notin> set (immutable fs1)))"
      using Cons.IH [OF r] Cons.prems(2) by simp
    have pp: "pathOf (walk_name (repoDir f) t) = repoPath f @ t"
      using vt(1) by (simp add: pathOf_walk_name repoPath_def)
    have n0: "node_at fs0 (repoPath f @ t) = Some info"
      using namei_Inr [OF l [unfolded Lstat_def]] pp by simp
    show ?case
    proof (cases "info \<noteq> Directory \<and> gc_removes cs hashes t \<and> repoPath f @ t \<notin> set (immutable fs0)")
      case False
      then have "fs1 = fs0" using s by auto
      then show ?thesis using ih by auto
    next
      case True
      then have f1: "fs1 = del_node (repoPath f @ t) fs0" using s by simp
      obtain b where b: "info = Regular b" using True by (cases info) auto
      have i: "immutable fs1 = immutable fs0" using f1 by simp
      have n1: "node_at fs1 p = (if p = repoPath f @ t then None else node_at fs0 p)"
        using f1 vt(2) by (simp add: node_at_del_node)
      show ?thesis
      proof (cases "p = repoPath f @ t")
        case pt: True
        then have "node_at fs2 p = None" using ih n1 by auto
        then show ?thesis using ih i pt n0 b True by auto
      next
        case False
        then show ?thesis using ih i n1 by auto
      qed
    qed
  qed
  then show "immutable fs2 = immutable fs0"
    and "node_at fs2 p = node_at fs0 p \<or>
          (node_at fs2 p = None \<and> (\<exists>t\<in>set ts. p = repoPath f @ t \<and> gc_removes cs hashes t) \<and>
           (\<exists>b. node_at fs0 p = Some (Regular b)) \<and> p \<notin> set (immutable fs0))"
    by auto
qed

lemma walk_remove_post:
  assumes "walk_entries (repoDir f) (removeFile f cs hashes) ts fs0 = (None, fs2)"
    and "\<forall>t\<in>set ts. valid_path t \<and> t \<noteq> []"
    and "t \<in> set ts" "node_at fs2 (repoPath f @ t) = Some (Regular b)" "isTarget (join_sep t)"
  shows "needsRemoval cs hashes (join_sep t) = Inr False \<or> repoPath f @ t \<in> set (immutable fs0)"
  using assms
proof (induction ts arbitrary: fs0)
  case Nil
  then show ?case by simp
next
  case (Cons x ts)
  from Cons.prems(1) obtain info fs1 where l: "Lstat fs0 (walk_name (repoDir f) x) = Inr info"
    and st: "removeFile f cs hashes (walk_name (repoDir f) x) (Inr info) fs0 = (None, fs1)"
    and r: "walk_entries (repoDir f) (removeFile f cs hashes) ts fs1 = (None, fs2)"
    by (rule walk_remove_Cons)
  have vx: "valid_path x" "x \<noteq> []" and vts: "\<forall>t\<in>set ts. valid_path t \<and> t \<noteq> []"
    using Cons.prems(2) by simp_all
  note s = removeFile_step [OF vx l st]
  have i1: "immutable fs1 = immutable fs0" using s(1) by (auto split: if_splits)
  show ?case
  proof (cases "x = t")
    case False
    then have "t \<in> set ts" using Cons.prems(3) by simp
    then show ?thesis using Cons.IH [OF r vts _ Cons.prems(4,5)] i1 by simp
  next
    case True
    have n1: "node_at fs1 (repoPath f @ t) = Some (Regular b)"
      using walk_remove_frame(2) [OF r vts, of "repoPath f @ t"] Cons.prems(4) by auto
    have pp: "pathOf (walk_name (repoDir f) t) = repoPath f @ t"
      using vx(1) True by (simp add: pathOf_walk_name repoPath_def)
    have n0: "node_at fs0 (repoPath f @ t) = Some info"
      using namei_Inr [OF l [unfolded Lstat_def]] pp True by simp
    have kept: "\<not> (info \<noteq> Directory \<and> gc_removes cs hashes t \<and> repoPath f @ t \<notin> set (immutable fs0))"
    proof
      assume "info \<noteq> Directory \<and> gc_removes cs hashes t \<and> repoPath f @ t \<notin> set (immutable fs0)"
      then have "fs1 = del_node (repoPath f @ t) fs0" using s(1) True by simp
      then show False using n1 vx(2) True by (simp add: node_at_del_node)
    qed
    then have "fs1 = fs0" using s(1) True by auto
    then have "info = Regular b" using n0 n1 by simp
    then obtain v where "needsRemoval cs hashes (join_sep t) = Inr v"
      using s(2) True Cons.prems(5) by auto
    then show ?thesis using kept \<open>info = Regular b\<close> Cons.prems(5) by (cases v) (auto simp: gc_removes_def)
  qed
qed

subsection \<open>The entries of a walk\<close>

lemma set_subtree: "set (subtree fs p) = {q. q \<noteq> [] \<and> p @ q \<in> fst ` set (nodes fs)}"
proof -
  have s: "set (subtree fs p) = drop (length p) ` {x \<in> fst ` set (nodes fs). strict_prefix p x}"
    by (simp add: subtree_def)
  show ?thesis unfolding s
  proof (intro equalityI subsetI)
    fix q assume "q \<in> drop (length p) ` {x \<in> fst ` set (nodes fs). strict_prefix p x}"
    then obtain x where x: "x \<in> fst ` set (nodes fs)" "strict_prefix p x" "q = drop (length p) x"
      by blast
    obtain z where z: "x = p @ z" "z \<noteq> []" using x(2) by (auto simp: strict_prefix_def prefix_def)
    then show "q \<in> {q. q \<noteq> [] \<and> p @ q \<in> fst ` set (nodes fs)}" using x by simp
  next
    fix q assume "q \<in> {q. q \<noteq> [] \<and> p @ q \<in> fst ` set (nodes fs)}"
    then have q: "q \<noteq> []" "p @ q \<in> fst ` set (nodes fs)" by simp_all
    have "strict_prefix p (p @ q)" using q(1) by (simp add: strict_prefix_def)
    moreover have "q = drop (length p) (p @ q)" by simp
    ultimately show "q \<in> drop (length p) ` {x \<in> fst ` set (nodes fs). strict_prefix p x}"
      using q(2) by blast
  qed
qed

lemma subtree_valid:
  assumes "names_ok fs" "q \<in> set (subtree fs p)"
  shows "valid_path q \<and> q \<noteq> []"
proof -
  have "p @ q \<in> fst ` set (nodes fs)" "q \<noteq> []" using assms(2) by (simp_all add: set_subtree)
  then have "valid_path (p @ q)" using assms(1) unfolding names_ok_iff by blast
  then show ?thesis using \<open>q \<noteq> []\<close> by simp
qed

lemma subtree_mem:
  "node_at fs (p @ q) = Some n \<Longrightarrow> q \<noteq> [] \<Longrightarrow> q \<in> set (subtree fs p)"
  using node_at_key [of fs "p @ q" n] by (simp add: set_subtree)

lemma Walk_copy_dir:
  assumes "Walk (stagedDir f) (copyToRepo f cs hashes) fs = (None, fs1)"
    and "Lstat fs (stagedDir f) = Inr Directory"
  shows "walk_entries (stagedDir f) (copyToRepo f cs hashes) (subtree fs (stagedPath f)) fs = (None, fs1)"
  using assms by (simp add: Walk_def IsDir_def copyToRepo_dir stagedPath_def)

lemma isTarget_dot [simp]: "\<not> isTarget ''.''"
  by (simp add: isTarget_def HasPrefix_def)

lemma removeFile_root:
  "removeFile f cs hashes (repoDir f) (Inr info) fs = (None, fs)"
proof -
  have "Rel (repoDir f) (walk_name (repoDir f) []) = Inr ''.''"
    using Rel_walk_name [of "''repository''" "[]" "dir f"] by (simp add: repoDir_def rel_of_def valid_path_def)
  then show ?thesis by (simp add: removeFile_def walk_name_def)
qed

lemma Walk_remove_cases:
  assumes "Walk (repoDir f) (removeFile f cs hashes) fs1 = (None, fs2)"
  shows "(\<exists>b. Lstat fs1 (repoDir f) = Inr (Regular b) \<and> fs2 = fs1) \<or>
         (Lstat fs1 (repoDir f) = Inr Directory \<and>
          walk_entries (repoDir f) (removeFile f cs hashes) (subtree fs1 (repoPath f)) fs1 = (None, fs2))"
proof (cases "Lstat fs1 (repoDir f)")
  case (Inl e)
  then show ?thesis using assms by (simp add: Walk_def removeFile_err)
next
  case (Inr info)
  show ?thesis
  proof (cases info)
    case Directory
    then show ?thesis using assms Inr by (simp add: Walk_def IsDir_def removeFile_root repoPath_def)
  next
    case (Regular b)
    then show ?thesis using assms Inr by (simp add: Walk_def IsDir_def removeFile_root)
  qed
qed

subsection \<open>Cleaning the staging area\<close>

lemma map_of_filter_key:
  "map_of (filter (\<lambda>(q, n). P q) al) p = (if P p then map_of al p else None)"
  by (induction al) auto

lemma RemoveAll_ok:
  assumes "RemoveAll fs s = (None, fs')" "namei fs [] (pathOf s) = Inr n" "pathOf s \<noteq> []"
  shows "node_at fs' p = (if prefix (pathOf s) p then None else node_at fs p)"
    and "immutable fs' = immutable fs"
proof -
  have f: "fs' = fs\<lparr>nodes := filter (\<lambda>(q, n). \<not> prefix (pathOf s) q) (nodes fs)\<rparr>"
    using assms(1,2) by (auto simp: RemoveAll_def Let_def split: if_splits)
  show "immutable fs' = immutable fs" using f by simp
  have "map_of (filter (\<lambda>(q, n). \<not> prefix (pathOf s) q) (nodes fs)) p
          = (if prefix (pathOf s) p then None else map_of (nodes fs) p)"
    by (simp add: map_of_filter_key)
  then show "node_at fs' p = (if prefix (pathOf s) p then None else node_at fs p)"
    using f assms(3) by (auto simp: node_at_def)
qed

lemma stagedPath_nonempty [simp]: "stagedPath f \<noteq> []" and repoPath_nonempty [simp]: "repoPath f \<noteq> []"
  by (simp_all add: stagedPath_eq repoPath_eq)

lemma pathOf_staged_targets: "pathOf (Join [stagedDir f, ''targets'']) = stagedPath f @ [''targets'']"
  by (simp add: pathOf_Join_name stagedPath_def)

lemma Clean_ok:
  assumes "fileSystemStore_Clean f fs = (None, fs')" "namei fs [] (stagedPath f) = Inr n"
  shows "node_at fs' p =
           (if prefix p (stagedPath f @ [''targets'']) then Some Directory
            else if prefix (stagedPath f) p then None else node_at fs p)"
    and "immutable fs' = immutable fs"
proof -
  obtain fs1 where r: "RemoveAll fs (stagedDir f) = (None, fs1)"
    and m: "MkdirAll fs1 (Join [stagedDir f, ''targets'']) = (None, fs')"
    using assms(1) by (auto simp: fileSystemStore_Clean_def split: prod.splits option.splits)
  have n: "namei fs [] (pathOf (stagedDir f)) = Inr n" using assms(2) by (simp add: stagedPath_def)
  have ne: "pathOf (stagedDir f) \<noteq> []" using stagedPath_nonempty [of f] by (simp add: stagedPath_def)
  note ra = RemoveAll_ok [OF r n ne]
  note mk = MkdirAll_ok [OF m]
  show "node_at fs' p =
           (if prefix p (stagedPath f @ [''targets'']) then Some Directory
            else if prefix (stagedPath f) p then None else node_at fs p)"
    using mk(1) [of p] ra(1) [of p] by (simp add: pathOf_staged_targets stagedPath_def)
  show "immutable fs' = immutable fs" using mk(2) ra(2) by simp
qed

lemma Commit_phases:
  assumes "fileSystemStore_Commit meta0 cs hashes f fs = (None, fs')"
  shows "\<exists>fs1 fs2. Walk (stagedDir f) (copyToRepo f cs hashes) fs = (None, fs1) \<and>
           Walk (repoDir f) (removeFile f cs hashes) fs1 = (None, fs2) \<and>
           fileSystemStore_Clean f fs2 = (None, fs')"
  using assms by (auto simp: fileSystemStore_Commit_def split: prod.splits option.splits)

lemma namei_prefix_dir:
  assumes "namei fs [] (a @ c # cs) = Inr n"
  shows "namei fs [] a = Inr Directory"
proof -
  note k = namei_Inr [OF assms]
  have "namei fs [] a = (case node_at fs ([] @ a) of None \<Rightarrow> Inl ENOENT | Some n \<Rightarrow> Inr n)"
  proof (rule namei_dirs)
    fix q assume "prefix [] q" "strict_prefix q ([] @ a)"
    then have "strict_prefix q ([] @ a @ c # cs)" by (auto simp: strict_prefix_def prefix_def)
    then show "node_at fs q = Some Directory" using k by simp
  qed
  moreover have "node_at fs a = Some Directory" using k by (simp add: strict_prefix_def)
  ultimately show ?thesis by simp
qed

lemma Lstat_walk_name: "valid_path q \<Longrightarrow> Lstat fs (walk_name root q) = namei fs [] (pathOf root @ q)"
  by (simp add: Lstat_def pathOf_walk_name)

text \<open>
  What a commit that returns no error has done, phase by phase, when the staging
  directory is a directory.
\<close>

lemma Commit_ok:
  assumes c: "fileSystemStore_Commit meta0 cs hashes f fs = (None, fs')"
    and ok: "names_ok fs" and sf: "sep_free hashes"
    and sd: "namei fs [] (stagedPath f) = Inr Directory"
  shows "\<exists>fs1 fs2.
    walk_entries (stagedDir f) (copyToRepo f cs hashes) (subtree fs (stagedPath f)) fs = (None, fs1) \<and>
    same_outside (repoPath f) fs fs1 \<and> names_ok fs1 \<and> immutable fs1 = immutable fs \<and>
    (fs2 = fs1 \<and> (\<exists>b. node_at fs1 (repoPath f) = Some (Regular b)) \<or>
     walk_entries (repoDir f) (removeFile f cs hashes) (subtree fs1 (repoPath f)) fs1 = (None, fs2)) \<and>
    (\<forall>p. node_at fs' p =
           (if prefix p (stagedPath f @ [''targets'']) then Some Directory
            else if prefix (stagedPath f) p then None else node_at fs2 p)) \<and>
    immutable fs' = immutable fs2"
proof -
  obtain fs1 fs2 where w1: "Walk (stagedDir f) (copyToRepo f cs hashes) fs = (None, fs1)"
    and w2: "Walk (repoDir f) (removeFile f cs hashes) fs1 = (None, fs2)"
    and cl: "fileSystemStore_Clean f fs2 = (None, fs')"
    using Commit_phases [OF c] by blast
  have ls: "Lstat fs (stagedDir f) = Inr Directory" using sd by (simp add: Lstat_def stagedPath_def)
  have e1: "walk_entries (stagedDir f) (copyToRepo f cs hashes) (subtree fs (stagedPath f)) fs = (None, fs1)"
    using Walk_copy_dir [OF w1 ls] .
  have vq: "\<forall>q\<in>set (subtree fs (stagedPath f)). valid_path q \<and> q \<noteq> []"
    using subtree_valid [OF ok] by blast
  have s0: "same_outside (repoPath f) fs fs" by (simp add: same_outside_def)
  have i1: "(names_ok fs1 \<and> immutable fs1 = immutable fs) \<and> same_outside (repoPath f) fs fs1"
  proof (rule walk_copy_induct [OF e1 vq sf sd s0, where I = "\<lambda>l fsx. names_ok fsx \<and> immutable fsx = immutable fs"])
    show "names_ok fs \<and> immutable fs = immutable fs" using ok by simp
  next
    fix q rest fsa
    assume "names_ok fsa \<and> immutable fsa = immutable fs"
    then show "names_ok fsa \<and> immutable fsa = immutable fs" .
  next
    fix q rest b fsa fsb
    assume a: "names_ok fsa \<and> immutable fsa = immutable fs" and v: "valid_path q" "q \<noteq> []"
      and e: "copy_effect f cs hashes q b fsa fsb"
    have "valid_path p" if "node_at fsb p \<noteq> None" for p
    proof (cases "p \<in> (@) (repoPath f) ` set (copy_dsts cs hashes q)")
      case True
      then show ?thesis using copy_dsts_valid [OF _ v(2,1) sf] valid_repoPath [of f] by auto
    next
      case False
      show ?thesis
      proof (cases "copy_dsts cs hashes q \<noteq> [] \<and> strict_prefix p (repoPath f @ q)")
        case True
        then have "prefix p (repoPath f @ q)" by (simp add: strict_prefix_def)
        moreover have "valid_path (repoPath f @ q)" using v(1) valid_repoPath [of f] by simp
        ultimately show ?thesis using valid_path_prefix by blast
      next
        case nd: False
        then have "node_at fsb p = node_at fsa p" using e False by (auto simp: copy_effect_def)
        then show ?thesis using that a by (simp add: names_ok_node_at)
      qed
    qed
    then have "names_ok fsb" by (simp add: names_ok_node_at)
    then show "names_ok fsb \<and> immutable fsb = immutable fs" using a e by (simp add: copy_effect_def)
  qed
  have sd1: "namei fs1 [] (stagedPath f) = Inr Directory"
    using Lstat_staged_same [of f fs fs1 "[]"] i1 sd
    by (simp add: Lstat_def walk_name_def valid_path_def stagedPath_def)
  have g: "fs2 = fs1 \<and> (\<exists>b. node_at fs1 (repoPath f) = Some (Regular b)) \<or>
     walk_entries (repoDir f) (removeFile f cs hashes) (subtree fs1 (repoPath f)) fs1 = (None, fs2)"
    using Walk_remove_cases [OF w2] namei_Inr [of fs1 "[]" "repoPath f"]
    by (auto simp: Lstat_def repoPath_def)
  have vt: "\<forall>t\<in>set (subtree fs1 (repoPath f)). valid_path t \<and> t \<noteq> []"
    using subtree_valid [of fs1] i1 by blast
  have same2: "node_at fs2 u = node_at fs1 u" if "\<not> prefix (repoPath f) u" for u
  proof -
    from g show ?thesis
    proof
      assume "fs2 = fs1 \<and> (\<exists>b. node_at fs1 (repoPath f) = Some (Regular b))"
      then show ?thesis by simp
    next
      assume w: "walk_entries (repoDir f) (removeFile f cs hashes) (subtree fs1 (repoPath f)) fs1 = (None, fs2)"
      show ?thesis using walk_remove_frame(2) [OF w vt, of u] that by auto
    qed
  qed
  have "namei fs2 [] (stagedPath f) = namei fs1 [] (stagedPath f)"
  proof (rule namei_cong)
    fix u assume "prefix [] u" and u: "prefix u ([] @ stagedPath f)"
    have "\<not> prefix (repoPath f) u"
    proof
      assume "prefix (repoPath f) u"
      then have "prefix (repoPath f @ []) (stagedPath f @ [])" using u by auto
      then show False using staged_not_under_repo by blast
    qed
    then show "node_at fs2 u = node_at fs1 u" by (rule same2)
  qed
  then have sd2: "namei fs2 [] (stagedPath f) = Inr Directory" using sd1 by simp
  have i2: "immutable fs' = immutable fs2" using Clean_ok(2) [OF cl sd2] .
  show ?thesis
    using e1 i1 g Clean_ok(1) [OF cl sd2] i2 by blast
qed

subsection \<open>A staged file and one of its destinations\<close>

lemma published_at:
  assumes c: "fileSystemStore_Commit meta0 cs hashes f fs = (None, fs')"
    and ok: "names_ok fs" and sf: "sep_free hashes"
    and v0: "valid_path q0" "q0 \<noteq> []"
    and st: "namei fs [] (stagedPath f @ q0) = Inr (Regular b)"
    and own: "t0 \<in> set (copy_dsts cs hashes q0)"
    and nc: "\<And>q b'. q \<noteq> q0 \<Longrightarrow> valid_path q \<Longrightarrow> q \<noteq> [] \<Longrightarrow>
                namei fs [] (stagedPath f @ q) = Inr (Regular b') \<Longrightarrow>
                t0 \<notin> set (copy_dsts cs hashes q)"
    and kept: "\<not> gc_removes cs hashes t0"
  shows "namei fs' [] (repoPath f @ t0) = Inr (Regular b)"
proof -
  let ?rp = "repoPath f" and ?sp = "stagedPath f"
  obtain z zs where q0: "q0 = z # zs" using v0(2) by (cases q0) auto
  have sd: "namei fs [] ?sp = Inr Directory" using namei_prefix_dir [of fs ?sp z zs] st q0 by simp
  obtain fs1 fs2 where
    e1: "walk_entries (stagedDir f) (copyToRepo f cs hashes) (subtree fs ?sp) fs = (None, fs1)"
    and ok1: "names_ok fs1"
    and g: "fs2 = fs1 \<and> (\<exists>b. node_at fs1 ?rp = Some (Regular b)) \<or>
     walk_entries (repoDir f) (removeFile f cs hashes) (subtree fs1 ?rp) fs1 = (None, fs2)"
    and cl: "\<And>p. node_at fs' p =
           (if prefix p (?sp @ [''targets'']) then Some Directory
            else if prefix ?sp p then None else node_at fs2 p)"
    using Commit_ok [OF c ok sf sd] by blast
  have vq: "\<forall>q\<in>set (subtree fs ?sp). valid_path q \<and> q \<noteq> []"
    using subtree_valid [OF ok] by blast
  have s0: "same_outside ?rp fs fs" by (simp add: same_outside_def)
  have mem: "q0 \<in> set (subtree fs ?sp)"
    using subtree_mem [OF _ v0(2)] namei_Inr [OF st] by simp
  have t0: "t0 \<noteq> []" using copy_dsts_shape(1) [OF own v0(2)] .
  have sp0: "strict_prefix p (?rp @ t0) \<longleftrightarrow> strict_prefix p (?rp @ q0)" for p
    using strict_prefix_dst [OF own v0(2)] .
  let ?done = "\<lambda>fsx. node_at fsx (?rp @ t0) = Some (Regular b) \<and>
                 (\<forall>p. strict_prefix p (?rp @ t0) \<longrightarrow> node_at fsx p = Some Directory)"
  have "(q0 \<in> set [] \<or> ?done fs1) \<and> same_outside ?rp fs fs1"
  proof (rule walk_copy_induct [OF e1 vq sf sd s0, where I = "\<lambda>l fsx. q0 \<in> set l \<or> ?done fsx"])
    show "q0 \<in> set (subtree fs ?sp) \<or> ?done fs" using mem by simp
  next
    fix q rest fsa
    assume i: "q0 \<in> set (q # rest) \<or> ?done fsa"
      and l: "Lstat fs (walk_name (stagedDir f) q) = Inr Directory"
    have "q \<noteq> q0" using l st v0(1) by (auto simp: Lstat_walk_name stagedPath_def)
    then show "q0 \<in> set rest \<or> ?done fsa" using i by auto
  next
    fix q rest b' fsa fsb
    assume i: "q0 \<in> set (q # rest) \<or> ?done fsa"
      and v: "valid_path q" "q \<noteq> []"
      and l: "Lstat fs (walk_name (stagedDir f) q) = Inr (Regular b')"
      and e: "copy_effect f cs hashes q b' fsa fsb"
    have nm: "namei fs [] (?sp @ q) = Inr (Regular b')"
      using l v(1) by (simp add: Lstat_walk_name stagedPath_def)
    note e1 = e [unfolded copy_effect_def, THEN conjunct1, rule_format]
    note e2 = e [unfolded copy_effect_def, THEN conjunct2, THEN conjunct1, rule_format]
    note e3 = e [unfolded copy_effect_def, THEN conjunct2, THEN conjunct2, THEN conjunct1, rule_format]
    show "q0 \<in> set rest \<or> ?done fsb"
    proof (cases "q = q0")
      case True
      then have bb: "b' = b" using nm st by simp
      have a: "node_at fsb (?rp @ t0) = Some (Regular b)"
        using e1 [of "?rp @ t0"] own True bb by simp
      have "node_at fsb p = Some Directory" if sp: "strict_prefix p (?rp @ t0)" for p
      proof -
        have "p \<notin> (@) ?rp ` set (copy_dsts cs hashes q0)"
          using sp sp0 [of p] strict_prefix_dst [of _ cs hashes q0 p f, OF _ v0(2)] by auto
        moreover have "copy_dsts cs hashes q0 \<noteq> []" using own by auto
        ultimately show ?thesis using e1 [of p] sp sp0 [of p] True by simp
      qed
      then show ?thesis using a by blast
    next
      case False
      show ?thesis
      proof (cases "q0 \<in> set rest")
        case True
        then show ?thesis by simp
      next
        case nr: False
        then have d: "?done fsa" using i False by auto
        have nh0: "?rp @ t0 \<notin> (@) ?rp ` set (copy_dsts cs hashes q)"
          using nc [OF False v nm] by auto
        have a: "node_at fsb (?rp @ t0) = Some (Regular b)"
        proof -
          have "\<not> (copy_dsts cs hashes q \<noteq> [] \<and> strict_prefix (?rp @ t0) (?rp @ q))"
            using e2 [of "?rp @ t0" b] d by blast
          then show ?thesis using e1 [of "?rp @ t0"] d nh0 by simp
        qed
        have "node_at fsb p = Some Directory" if sp: "strict_prefix p (?rp @ t0)" for p
        proof -
          have dp: "node_at fsa p = Some Directory" using d sp by blast
          then have "p \<notin> (@) ?rp ` set (copy_dsts cs hashes q)" using e3 [of p] by blast
          then show ?thesis using e1 [of p] dp by simp
        qed
        then show ?thesis using a by blast
      qed
    qed
  qed
  then have d1: "?done fs1" by simp
  have rdir: "node_at fs1 ?rp = Some Directory"
    using d1 t0 by (simp add: strict_prefix_def)
  then have w2: "walk_entries (repoDir f) (removeFile f cs hashes) (subtree fs1 ?rp) fs1 = (None, fs2)"
    using g by auto
  have vt: "\<forall>t\<in>set (subtree fs1 ?rp). valid_path t \<and> t \<noteq> []"
    using subtree_valid [OF ok1] by blast
  note fr = walk_remove_frame(2) [OF w2 vt]
  have a2: "node_at fs2 (?rp @ t0) = Some (Regular b)"
    using fr [of "?rp @ t0"] d1 kept by auto
  have b2: "node_at fs2 p = Some Directory" if "strict_prefix p (?rp @ t0)" for p
    using fr [of p] d1 that by auto
  have out: "\<not> prefix p (?sp @ [''targets'']) \<or> node_at fs2 p = Some Directory" "\<not> prefix ?sp p"
    if "prefix p (?rp @ t0)" for p
  proof -
    show "\<not> prefix ?sp p"
    proof
      assume "prefix ?sp p"
      then have "prefix (?sp @ []) (?rp @ t0)" using that by auto
      then show False using repo_not_under_staged by blast
    qed
    show "\<not> prefix p (?sp @ [''targets'']) \<or> node_at fs2 p = Some Directory"
    proof (cases "prefix p (?sp @ [''targets''])")
      case True
      then have "prefix p (pathOf (dir f))" using that staged_repo_fork by blast
      then have "strict_prefix p (?rp @ t0)" by (auto simp: repoPath_eq strict_prefix_def prefix_def)
      then show ?thesis using b2 by simp
    next
      case False
      then show ?thesis by simp
    qed
  qed
  have a3: "node_at fs' (?rp @ t0) = Some (Regular b)"
    using cl [of "?rp @ t0"] out [of "?rp @ t0"] a2 by auto
  have b3: "node_at fs' p = Some Directory" if "strict_prefix p (?rp @ t0)" for p
    using cl [of p] out [of p] b2 [OF that] that by (auto simp: strict_prefix_def)
  have "namei fs' [] (?rp @ t0) = (case node_at fs' ([] @ ?rp @ t0) of None \<Rightarrow> Inl ENOENT | Some n \<Rightarrow> Inr n)"
    by (rule namei_dirs) (simp add: b3)
  then show ?thesis using a3 by simp
qed

subsection \<open>Where the files of the repository come from, and what is left of the staging area\<close>

lemma Commit_provenance:
  assumes c: "fileSystemStore_Commit meta0 cs hashes f fs = (None, fs')"
    and ok: "names_ok fs" and sf: "sep_free hashes"
    and sd: "namei fs [] (stagedPath f) = Inr Directory"
    and p: "node_at fs' p = Some (Regular b)"
  shows "node_at fs p = Some (Regular b) \<or>
         (\<exists>q t. valid_path q \<and> q \<noteq> [] \<and> namei fs [] (stagedPath f @ q) = Inr (Regular b) \<and>
                t \<in> set (copy_dsts cs hashes q) \<and> p = repoPath f @ t)"
proof -
  let ?rp = "repoPath f" and ?sp = "stagedPath f"
  let ?R = "node_at fs p = Some (Regular b) \<or>
         (\<exists>q t. valid_path q \<and> q \<noteq> [] \<and> namei fs [] (?sp @ q) = Inr (Regular b) \<and>
                t \<in> set (copy_dsts cs hashes q) \<and> p = ?rp @ t)"
  obtain fs1 fs2 where
    e1: "walk_entries (stagedDir f) (copyToRepo f cs hashes) (subtree fs ?sp) fs = (None, fs1)"
    and ok1: "names_ok fs1"
    and g: "fs2 = fs1 \<and> (\<exists>b. node_at fs1 ?rp = Some (Regular b)) \<or>
     walk_entries (repoDir f) (removeFile f cs hashes) (subtree fs1 ?rp) fs1 = (None, fs2)"
    and cl: "\<And>p. node_at fs' p =
           (if prefix p (?sp @ [''targets'']) then Some Directory
            else if prefix ?sp p then None else node_at fs2 p)"
    using Commit_ok [OF c ok sf sd] by blast
  have p2: "node_at fs2 p = Some (Regular b)" using cl [of p] p by (auto split: if_splits)
  have vt: "\<forall>t\<in>set (subtree fs1 ?rp). valid_path t \<and> t \<noteq> []"
    using subtree_valid [OF ok1] by blast
  have p1: "node_at fs1 p = Some (Regular b)"
    using g
  proof
    assume "fs2 = fs1 \<and> (\<exists>b. node_at fs1 ?rp = Some (Regular b))"
    then show ?thesis using p2 by simp
  next
    assume w: "walk_entries (repoDir f) (removeFile f cs hashes) (subtree fs1 ?rp) fs1 = (None, fs2)"
    show ?thesis using walk_remove_frame(2) [OF w vt, of p] p2 by auto
  qed
  have vq: "\<forall>q\<in>set (subtree fs ?sp). valid_path q \<and> q \<noteq> []"
    using subtree_valid [OF ok] by blast
  have s0: "same_outside ?rp fs fs" by (simp add: same_outside_def)
  have "(node_at fs1 p = Some (Regular b) \<longrightarrow> ?R) \<and> same_outside ?rp fs fs1"
  proof (rule walk_copy_induct [OF e1 vq sf sd s0, where I = "\<lambda>l fsx. node_at fsx p = Some (Regular b) \<longrightarrow> ?R"])
    show "node_at fs p = Some (Regular b) \<longrightarrow> ?R" by simp
  next
    fix q rest fsa
    assume "node_at fsa p = Some (Regular b) \<longrightarrow> ?R"
    then show "node_at fsa p = Some (Regular b) \<longrightarrow> ?R" .
  next
    fix q rest b' fsa fsb
    assume i: "node_at fsa p = Some (Regular b) \<longrightarrow> ?R"
      and v: "valid_path q" "q \<noteq> []"
      and l: "Lstat fs (walk_name (stagedDir f) q) = Inr (Regular b')"
      and e: "copy_effect f cs hashes q b' fsa fsb"
    have nm: "namei fs [] (?sp @ q) = Inr (Regular b')"
      using l v(1) by (simp add: Lstat_walk_name stagedPath_def)
    note e1 = e [unfolded copy_effect_def, THEN conjunct1, rule_format]
    show "node_at fsb p = Some (Regular b) \<longrightarrow> ?R"
    proof
      assume pb: "node_at fsb p = Some (Regular b)"
      show ?R
      proof (cases "p \<in> (@) ?rp ` set (copy_dsts cs hashes q)")
        case True
        then have "b' = b" using e1 [of p] pb by simp
        moreover obtain t where "t \<in> set (copy_dsts cs hashes q)" "p = ?rp @ t" using True by blast
        ultimately show ?thesis using v nm by blast
      next
        case False
        then have "node_at fsa p = Some (Regular b)" using e1 [of p] pb by (auto split: if_splits)
        then show ?thesis using i by blast
      qed
    qed
  qed
  then show ?thesis using p1 by blast
qed

lemma Commit_staging_empty:
  assumes c: "fileSystemStore_Commit meta0 cs hashes f fs = (None, fs')"
    and ok: "names_ok fs" and sf: "sep_free hashes"
    and sd: "namei fs [] (stagedPath f) = Inr Directory"
    and p: "prefix (stagedPath f) p"
  shows "node_at fs' p =
           (if p = stagedPath f \<or> p = stagedPath f @ [''targets''] then Some Directory else None)"
proof -
  obtain fs2 where cl: "\<And>p. node_at fs' p =
           (if prefix p (stagedPath f @ [''targets'']) then Some Directory
            else if prefix (stagedPath f) p then None else node_at fs2 p)"
    using Commit_ok [OF c ok sf sd] by blast
  have "prefix p (stagedPath f @ [''targets'']) \<longleftrightarrow> p = stagedPath f \<or> p = stagedPath f @ [''targets'']"
    using p by (auto simp: prefix_snoc)
  then show ?thesis using cl [of p] p by simp
qed

lemma Commit_gc_post:
  assumes c: "fileSystemStore_Commit meta0 cs hashes f fs = (None, fs')"
    and ok: "names_ok fs" and sf: "sep_free hashes"
    and sd: "namei fs [] (stagedPath f) = Inr Directory"
    and r: "namei fs' [] (repoPath f @ t) = Inr (Regular b)" and t: "t \<noteq> []"
    and tg: "isTarget (join_sep t)"
  shows "needsRemoval cs hashes (join_sep t) = Inr False \<or> repoPath f @ t \<in> set (immutable fs)"
proof -
  let ?rp = "repoPath f" and ?sp = "stagedPath f"
  obtain fs1 fs2 where ok1: "names_ok fs1" and im: "immutable fs1 = immutable fs"
    and g: "fs2 = fs1 \<and> (\<exists>b. node_at fs1 ?rp = Some (Regular b)) \<or>
     walk_entries (repoDir f) (removeFile f cs hashes) (subtree fs1 ?rp) fs1 = (None, fs2)"
    and cl: "\<And>p. node_at fs' p =
           (if prefix p (?sp @ [''targets'']) then Some Directory
            else if prefix ?sp p then None else node_at fs2 p)"
    using Commit_ok [OF c ok sf sd] by blast
  note k = namei_Inr [OF r]
  have a': "node_at fs' (?rp @ t) = Some (Regular b)" using k by simp
  have d': "node_at fs' ?rp = Some Directory" using k t by (simp add: strict_prefix_def)
  have a2: "node_at fs2 (?rp @ t) = Some (Regular b)" using cl [of "?rp @ t"] a' by (auto split: if_splits)
  have "\<not> prefix ?rp (?sp @ [''targets''])"
    using staged_repo_fork [of ?rp f "[''targets'']" "[]"] by (auto simp: repoPath_eq)
  moreover have "\<not> prefix ?sp ?rp" using repo_not_under_staged [of f "[]" "[]"] by simp
  ultimately have d2: "node_at fs2 ?rp = Some Directory" using cl [of ?rp] d' by simp
  have vt: "\<forall>t\<in>set (subtree fs1 ?rp). valid_path t \<and> t \<noteq> []"
    using subtree_valid [OF ok1] by blast
  from g show ?thesis
  proof
    assume "fs2 = fs1 \<and> (\<exists>b. node_at fs1 ?rp = Some (Regular b))"
    then show ?thesis using d2 by auto
  next
    assume w: "walk_entries (repoDir f) (removeFile f cs hashes) (subtree fs1 ?rp) fs1 = (None, fs2)"
    have "node_at fs1 (?rp @ t) = Some (Regular b)"
      using walk_remove_frame(2) [OF w vt, of "?rp @ t"] a2 by auto
    then have "t \<in> set (subtree fs1 ?rp)" using subtree_mem t by blast
    then show ?thesis using walk_remove_post [OF w vt _ a2 tg] im by simp
  qed
qed

subsection \<open>When the garbage collection keeps a file\<close>

lemma SplitN2_cases:
  "(\<exists>h n. s = h @ sep # n \<and> sep \<notin> set h \<and> SplitN2 s sep = [h, n]) \<or>
   (sep \<notin> set s \<and> SplitN2 s sep = [s])"
proof (cases "sep \<in> set s")
  case False
  then have d: "dropWhile (\<lambda>c. c \<noteq> sep) s = []" by auto
  show ?thesis unfolding SplitN2_def d using False by simp
next
  case True
  let ?h = "takeWhile (\<lambda>c. c \<noteq> sep) s"
  have "dropWhile (\<lambda>c. c \<noteq> sep) s \<noteq> []" using True by auto
  then obtain x n where d: "dropWhile (\<lambda>c. c \<noteq> sep) s = x # n" by (cases "dropWhile (\<lambda>c. c \<noteq> sep) s") auto
  then have "x = sep" using hd_dropWhile [of "\<lambda>c. c \<noteq> sep" s] by (metis list.sel(1) list.distinct(1))
  then have "s = ?h @ sep # n" using d takeWhile_dropWhile_id [of "\<lambda>c. c \<noteq> sep" s] by simp
  moreover have "sep \<notin> set ?h" by (auto dest: set_takeWhileD)
  moreover have "SplitN2 s sep = [?h, n]" using d by (simp add: SplitN2_def)
  ultimately show ?thesis by blast
qed

lemma SplitN2_hashed:
  assumes "sep \<notin> set h"
  shows "SplitN2 (h @ sep # n) sep = [h, n]"
proof -
  have a: "dropWhile (\<lambda>c. c \<noteq> sep) (h @ sep # n) = sep # n" using assms by (induction h) auto
  have b: "takeWhile (\<lambda>c. c \<noteq> sep) (h @ sep # n) = h" using assms by (induction h) auto
  show ?thesis unfolding SplitN2_def a b by simp
qed

lemma needsRemoval_plain: "needsRemoval False hashes rel = Inr (hashes rel = None)"
  by (simp add: needsRemoval_def)

lemma needsRemoval_snapshot_kept:
  "needsRemoval True hashes rel = Inr False \<longleftrightarrow>
     (\<exists>h n. Base rel = h @ ''.'' @ n \<and> CHR ''.'' \<notin> set h \<and>
            (n = [] \<or> hashes (Join [Dir rel, n]) \<noteq> None))"
proof -
  from SplitN2_cases [of "Base rel" "CHR ''.''"] show ?thesis
  proof
    assume "\<exists>h n. Base rel = h @ CHR ''.'' # n \<and> CHR ''.'' \<notin> set h \<and> SplitN2 (Base rel) (CHR ''.'') = [h, n]"
    then obtain h n where b: "Base rel = h @ CHR ''.'' # n" "CHR ''.'' \<notin> set h"
      "SplitN2 (Base rel) (CHR ''.'') = [h, n]" by blast
    have u: "h' = h \<and> n' = n" if "Base rel = h' @ ''.'' @ n'" "CHR ''.'' \<notin> set h'" for h' n'
    proof -
      have "SplitN2 (Base rel) (CHR ''.'') = [h', n']" using that SplitN2_hashed [of "CHR ''.''" h' n'] by simp
      then show ?thesis using b(3) by simp
    qed
    show ?thesis
    proof
      assume "needsRemoval True hashes rel = Inr False"
      then have "n = [] \<or> hashes (Join [Dir rel, n]) \<noteq> None"
        using b(3) by (auto simp: needsRemoval_def Let_def split: if_splits)
      then show "\<exists>h n. Base rel = h @ ''.'' @ n \<and> CHR ''.'' \<notin> set h \<and>
            (n = [] \<or> hashes (Join [Dir rel, n]) \<noteq> None)"
        using b(1,2) by auto
    next
      assume "\<exists>h n. Base rel = h @ ''.'' @ n \<and> CHR ''.'' \<notin> set h \<and>
            (n = [] \<or> hashes (Join [Dir rel, n]) \<noteq> None)"
      then obtain h' n' where h': "Base rel = h' @ ''.'' @ n'" "CHR ''.'' \<notin> set h'"
        "n' = [] \<or> hashes (Join [Dir rel, n']) \<noteq> None" by blast
      then have "n = [] \<or> hashes (Join [Dir rel, n]) \<noteq> None" using u [OF h'(1,2)] by simp
      then show "needsRemoval True hashes rel = Inr False"
        using b(3) by (auto simp: needsRemoval_def Let_def)
    qed
  next
    assume a: "CHR ''.'' \<notin> set (Base rel) \<and> SplitN2 (Base rel) (CHR ''.'') = [Base rel]"
    then have "needsRemoval True hashes rel = Inl PanicIndexOutOfRange"
      by (simp add: needsRemoval_def Let_def)
    moreover have "\<not> (\<exists>h n. Base rel = h @ ''.'' @ n \<and> CHR ''.'' \<notin> set h \<and>
            (n = [] \<or> hashes (Join [Dir rel, n]) \<noteq> None))"
      using a by auto
    ultimately show ?thesis by simp
  qed
qed

section \<open>Lemmas of the claims\<close>

subsection \<open>Reading files, and names that are no hashed names\<close>

lemma ReadFile_iff: "ReadFile fs s = Inr b \<longleftrightarrow> namei fs [] (pathOf s) = Inr (Regular b)"
  by (auto simp: ReadFile_def Open_def Lstat_def read_all_def split: sum.splits node.splits)

lemma hex_values:
  assumes "hex_hashes hashes" "(alg, h) \<in> set (hash_values hashes p)"
  shows "is_hex h"
proof (cases "hashes p")
  case None
  then show ?thesis using assms(2) by (simp add: hash_values_def)
next
  case (Some hs)
  then have "list_all (\<lambda>(alg, h). is_hex h) hs" using assms(1) by (simp add: hex_hashes_def)
  moreover have "(alg, h) \<in> set hs" using assms(2) Some by (simp add: hash_values_def)
  ultimately show ?thesis by (auto simp: list_all_iff)
qed

lemma hex_no_dot:
  assumes "is_hex h"
  shows "CHR ''.'' \<notin> set h"
proof
  assume "CHR ''.'' \<in> set h"
  then have "CHR ''.'' \<in> set ''0123456789abcdef''"
    using assms unfolding is_hex_def list_all_iff by blast
  then show False by simp
qed

lemma hashed_name_inj:
  assumes "hashed_name h n = hashed_name h' n'" "CHR ''.'' \<notin> set h" "CHR ''.'' \<notin> set h'"
  shows "h = h' \<and> n = n'"
proof -
  have a: "SplitN2 (hashed_name h n) (CHR ''.'') = [h, n]"
    and b: "SplitN2 (hashed_name h' n') (CHR ''.'') = [h', n']"
    using SplitN2_hashed assms(2,3) by (simp_all add: hashed_name_def)
  have "SplitN2 (hashed_name h n) (CHR ''.'') = SplitN2 (hashed_name h' n') (CHR ''.'')"
    using assms(1) by (rule arg_cong)
  then have "[h, n] = [h', n']" unfolding a b .
  then show ?thesis by simp
qed

lemma hashed_name_not_manifest:
  assumes "is_hex h"
  shows "hashed_name h n \<noteq> ''root.json''" "hashed_name h n \<noteq> ''timestamp.json''"
proof -
  have r: "''root.json'' = hashed_name ''root'' ''json''" "''timestamp.json'' = hashed_name ''timestamp'' ''json''"
    by (simp_all add: hashed_name_def)
  have nh: "\<not> is_hex ''root''" "\<not> is_hex ''timestamp''" by (simp_all add: is_hex_def)
  show "hashed_name h n \<noteq> ''root.json''"
  proof
    assume "hashed_name h n = ''root.json''"
    then have "h = ''root''" using hashed_name_inj [of h n "''root''" "''json''"] hex_no_dot [OF assms] r by simp
    then show False using assms nh by simp
  qed
  show "hashed_name h n \<noteq> ''timestamp.json''"
  proof
    assume "hashed_name h n = ''timestamp.json''"
    then have "h = ''timestamp''"
      using hashed_name_inj [of h n "''timestamp''" "''json''"] hex_no_dot [OF assms] r by simp
    then show False using assms nh by simp
  qed
qed

lemma copy_dsts_cases:
  assumes "t \<in> set (copy_dsts cs hashes q)"
  shows "(t = q \<and> shouldCopyUnhashed cs (join_sep q)) \<or>
         (\<exists>alg h. (alg, h) \<in> set (hash_values hashes (join_sep q)) \<and> shouldCopyHashed cs (join_sep q) \<and>
                   t = butlast q @ [hashed_name h (last q)])"
  using assms by (auto simp: copy_dsts_def split: if_splits)

lemma manifest_not_hashed_dst:
  assumes "hex_hashes hashes" "name = ''root.json'' \<or> name = ''timestamp.json''" "q \<noteq> [name]"
  shows "[name] \<notin> set (copy_dsts cs hashes q)"
proof
  assume "[name] \<in> set (copy_dsts cs hashes q)"
  then show False using copy_dsts_cases [of "[name]" cs hashes q] assms(3)
      hashed_name_not_manifest [OF hex_values [OF assms(1)]] assms(2)
    by (auto simp: append_eq_Cons_conv)
qed

lemma not_isTarget_manifest [simp]: "\<not> isTarget ''root.json''" "\<not> isTarget ''timestamp.json''"
  by (simp_all add: isTarget_def HasPrefix_def)

lemma hex_demo_hashes: "hex_hashes demo_hashes"
  by (auto simp: hex_hashes_def demo_hashes_def is_hex_def split: if_splits)

lemma copyPaths_plain: "copyPaths False hashes rel = [rel]"
  by (simp add: copyPaths_def shouldCopyHashed_def shouldCopyUnhashed_def)

lemma copy_dsts_plain: "copy_dsts False hashes q = [q]"
  by (simp add: copy_dsts_def shouldCopyHashed_def shouldCopyUnhashed_def)

lemma Commit_plain_dom:
  assumes "\<And>p. hashes' p = None \<longleftrightarrow> hashes p = None"
  shows "fileSystemStore_Commit meta0 False hashes' f fs = fileSystemStore_Commit meta0 False hashes f fs"
proof -
  have a: "copyToRepo f False hashes' = copyToRepo f False hashes"
    by (intro ext) (unfold copyToRepo_def copyPaths_plain, rule refl)
  have b: "removeFile f False hashes' = removeFile f False hashes"
    by (intro ext) (unfold removeFile_def needsRemoval_plain assms, rule refl)
  show ?thesis unfolding fileSystemStore_Commit_def a b by (rule refl)
qed

lemma sep_free_dom: "sep_free (\<lambda>p. if hashes p = None then None else Some [])"
  by (simp add: sep_free_def)

section \<open>The claims\<close>

subsection \<open>Keys of the memory store\<close>

lemma keys_at_SaveKey:
  "keys_at (snd (memoryStore_SaveKey role key m)) r =
     (if r = role then keys_at m r @ [key] else keys_at m r)"
  by (simp add: memoryStore_SaveKey_def keys_at_def Let_def split: option.splits)

lemma keys_at_SaveKey_all:
  "keys_at (SaveKey_all saves m) r =
     keys_at m r @ map snd (filter (\<lambda>(role, key). role = r) saves)"
  by (induction saves arbitrary: m) (auto simp: keys_at_SaveKey)

text \<open>
  C10. The memory store matches the role exactly: after any sequence of \<open>SaveKey\<close> calls
  on a new store, \<open>GetKeys r\<close> returns, without error, exactly the keys saved under the
  role \<open>r\<close> itself, in the order they were saved (so none for a role never saved);
  \<open>SaveKey\<close> never fails; saving under \<^verbatim>\<open>rootx\<close> leaves the keys of \<^verbatim>\<open>root\<close> as
  they were, while the file system store then returns that key for \<^verbatim>\<open>root\<close>.
\<close>

theorem memoryStore_GetKeys_exact:
  "memoryStore_GetKeys r (SaveKey_all saves (MemoryStore meta0 files0))
     = Inr (map snd (filter (\<lambda>(role, key). role = r) saves))
   \<and> fst (memoryStore_SaveKey role key m) = None
   \<and> memoryStore_GetKeys ''root'' (snd (memoryStore_SaveKey ''rootx'' k m))
       = memoryStore_GetKeys ''root'' m
   \<and> fileSystemStore_GetKeys plain_codec ''root'' (FileSystemStore ''store'')
        (snd (fileSystemStore_SaveKey plain_codec ''rootx'' ''k2'' (FileSystemStore ''store'') empty_fs))
       = Inr [''k2'']"
proof -
  have a: "memoryStore_GetKeys r (SaveKey_all saves (MemoryStore meta0 files0))
     = Inr (map snd (filter (\<lambda>(role, key). role = r) saves))"
    by (simp add: memoryStore_GetKeys_def keys_at_SaveKey_all) (simp add: keys_at_def MemoryStore_def)
  have b: "fst (memoryStore_SaveKey role key m) = None"
    by (simp add: memoryStore_SaveKey_def Let_def)
  have c: "memoryStore_GetKeys ''root'' (snd (memoryStore_SaveKey ''rootx'' k m))
       = memoryStore_GetKeys ''root'' m"
    by (simp add: memoryStore_GetKeys_def keys_at_SaveKey)
  have d: "fileSystemStore_GetKeys plain_codec ''root'' (FileSystemStore ''store'')
        (snd (fileSystemStore_SaveKey plain_codec ''rootx'' ''k2'' (FileSystemStore ''store'') empty_fs))
       = Inr [''k2'']"
    by code_simp
  show ?thesis using a b c d by blast
qed

subsection \<open>Keys of the file system store\<close>

text \<open>
  C6. After \<open>SaveKey\<close> of \<^verbatim>\<open>k1\<close> under \<^verbatim>\<open>root\<close> and of \<^verbatim>\<open>k2\<close> under \<^verbatim>\<open>rootx\<close> on an
  empty store, \<open>GetKeys\<close> for \<^verbatim>\<open>root\<close> returns both keys: the file \<^verbatim>\<open>rootx-k2.json\<close>
  begins with \<^verbatim>\<open>root\<close>.
\<close>

theorem GetKeys_prefix_collision:
  "fileSystemStore_GetKeys plain_codec ''root'' (FileSystemStore ''store'')
     (snd (fileSystemStore_SaveKey plain_codec ''rootx'' ''k2'' (FileSystemStore ''store'')
        (snd (fileSystemStore_SaveKey plain_codec ''root'' ''k1'' (FileSystemStore ''store'') empty_fs))))
   = Inr [''k1'', ''k2'']"
  by code_simp

subsection \<open>Garbage collection and file names without a delimiter\<close>

text \<open>
  C4. With consistent snapshots, the garbage collection of a repository that holds the
  target \<^verbatim>\<open>targets/LICENSE\<close>, whose name has no \<^verbatim>\<open>.\<close>, ends in the panic of an index out
  of range, although the hash set lists the target.
\<close>

theorem Commit_panics_without_delimiter:
  "fst (fileSystemStore_Commit Map.empty True license_hashes (FileSystemStore ''store'') license_fs)
     = Some PanicIndexOutOfRange"
  by code_simp

subsection \<open>The root and timestamp manifests\<close>

text \<open>
  C3. Whatever the consistent-snapshot flag, when a commit returns no error and the root
  (or timestamp) manifest was staged, the repository afterwards holds the manifest under
  its plain name, with the staged contents.
\<close>

theorem root_and_timestamp_published:
  assumes "names_ok fs" and "hex_hashes hashes"
    and "fileSystemStore_Commit meta0 consistentSnapshot hashes f fs = (None, fs')"
    and "name = ''root.json'' \<or> name = ''timestamp.json''"
    and "ReadFile fs (Join [stagedDir f, name]) = Inr b"
  shows "ReadFile fs' (Join [repoDir f, name]) = Inr b"
proof -
  have vn: "valid_name name" using assms(4) by (auto simp: valid_name_def)
  then have v: "valid_path [name]" by (simp add: valid_path_def)
  have st: "namei fs [] (stagedPath f @ [name]) = Inr (Regular b)"
    using assms(5) vn by (simp add: ReadFile_iff pathOf_Join_name stagedPath_def)
  have own: "[name] \<in> set (copy_dsts consistentSnapshot hashes [name])"
    using assms(4) by (auto simp: copy_dsts_def shouldCopyUnhashed_def)
  have kept: "\<not> gc_removes consistentSnapshot hashes [name]"
    using assms(4) by (auto simp: gc_removes_def)
  have "namei fs' [] (repoPath f @ [name]) = Inr (Regular b)"
    using published_at [OF assms(3,1) hex_sep_free [OF assms(2)] v _ st own _ kept]
      manifest_not_hashed_dst [OF assms(2,4)]
    by blast
  then show ?thesis using vn by (simp add: ReadFile_iff pathOf_Join_name repoPath_def)
qed

theorem root_and_timestamp_published_witness:
  "names_ok demo_fs \<and> hex_hashes demo_hashes \<and>
   fst (fileSystemStore_Commit Map.empty True demo_hashes demo_store demo_fs) = None \<and>
   ReadFile demo_fs (Join [stagedDir demo_store, ''timestamp.json'']) = Inr ''time 2'' \<and>
   ReadFile (snd (fileSystemStore_Commit Map.empty True demo_hashes demo_store demo_fs))
     (Join [repoDir demo_store, ''timestamp.json'']) = Inr ''time 2''"
proof -
  have h1: "names_ok demo_fs" by code_simp
  have h3: "fst (fileSystemStore_Commit Map.empty True demo_hashes demo_store demo_fs) = None"
    by code_simp
  then have h3': "fileSystemStore_Commit Map.empty True demo_hashes demo_store demo_fs
      = (None, snd (fileSystemStore_Commit Map.empty True demo_hashes demo_store demo_fs))"
    by (simp add: prod_eq_iff)
  have h5: "ReadFile demo_fs (Join [stagedDir demo_store, ''timestamp.json'']) = Inr ''time 2''"
    by code_simp
  show ?thesis
    using root_and_timestamp_published [OF h1 hex_demo_hashes h3' _ h5] h1 hex_demo_hashes h3 h5
    by simp
qed

subsection \<open>Commits without consistent snapshots\<close>

text \<open>
  C5 (as amended). Without consistent snapshots, when a commit returns no error (the
  staging directory being a directory): every staged regular file whose relative path does
  not begin with \<^verbatim>\<open>targets\<close>, or is a key of the hash set, is in the repository under
  the same relative path with the staged contents; every regular file of the file system
  afterwards was there before with the same contents, or is the copy of a staged file
  under that file's own relative path (no hashed copies are made); and at or below the
  staging directory there are only that directory and an empty \<^verbatim>\<open>targets\<close> directory.
\<close>

theorem plain_commit_copies_staged_tree:
  assumes "names_ok fs"
    and "fileSystemStore_Commit meta0 False hashes f fs = (None, fs')"
    and "Lstat fs (stagedDir f) = Inr Directory"
  shows "(\<forall>q b. valid_path q \<and> q \<noteq> [] \<and> ReadFile fs (Join [stagedDir f, join_sep q]) = Inr b \<and>
                (isTarget (join_sep q) \<longrightarrow> hashes (join_sep q) \<noteq> None)
             \<longrightarrow> ReadFile fs' (Join [repoDir f, join_sep q]) = Inr b) \<and>
         (\<forall>p b. node_at fs' p = Some (Regular b)
             \<longrightarrow> node_at fs p = Some (Regular b) \<or>
                 (\<exists>q. valid_path q \<and> q \<noteq> [] \<and> p = repoPath f @ q \<and>
                      ReadFile fs (Join [stagedDir f, join_sep q]) = Inr b)) \<and>
         (\<forall>p. prefix (stagedPath f) p
             \<longrightarrow> node_at fs' p =
                   (if p = stagedPath f \<or> p = stagedPath f @ [''targets''] then Some Directory
                    else None))"
proof -
  let ?hs = "\<lambda>p. if hashes p = None then None else Some []"
  have c: "fileSystemStore_Commit meta0 False ?hs f fs = (None, fs')"
    using assms(2) Commit_plain_dom [of ?hs hashes meta0 f fs] by simp
  note sf = sep_free_dom [of hashes]
  have sd: "namei fs [] (stagedPath f) = Inr Directory"
    using assms(3) by (simp add: Lstat_def stagedPath_def)
  have a: "ReadFile fs' (Join [repoDir f, join_sep q]) = Inr b"
    if v: "valid_path q" "q \<noteq> []" and r: "ReadFile fs (Join [stagedDir f, join_sep q]) = Inr b"
      and k: "isTarget (join_sep q) \<longrightarrow> hashes (join_sep q) \<noteq> None" for q b
  proof -
    have st: "namei fs [] (stagedPath f @ q) = Inr (Regular b)"
      using r v by (simp add: ReadFile_iff pathOf_Join_rel stagedPath_def)
    have kept: "\<not> gc_removes False ?hs q"
      using k by (auto simp: gc_removes_def needsRemoval_plain)
    have "namei fs' [] (repoPath f @ q) = Inr (Regular b)"
      by (rule published_at [OF c assms(1) sf v st _ _ kept]) (simp_all add: copy_dsts_plain)
    then show ?thesis using v by (simp add: ReadFile_iff pathOf_Join_rel repoPath_def)
  qed
  have b: "node_at fs p = Some (Regular b) \<or>
                 (\<exists>q. valid_path q \<and> q \<noteq> [] \<and> p = repoPath f @ q \<and>
                      ReadFile fs (Join [stagedDir f, join_sep q]) = Inr b)"
    if "node_at fs' p = Some (Regular b)" for p b
  proof -
    from Commit_provenance [OF c assms(1) sf sd that]
    show ?thesis
    proof
      assume "node_at fs p = Some (Regular b)"
      then show ?thesis by simp
    next
      assume "\<exists>q t. valid_path q \<and> q \<noteq> [] \<and> namei fs [] (stagedPath f @ q) = Inr (Regular b) \<and>
                t \<in> set (copy_dsts False ?hs q) \<and> p = repoPath f @ t"
      then obtain q where "valid_path q" "q \<noteq> []" "namei fs [] (stagedPath f @ q) = Inr (Regular b)"
        "p = repoPath f @ q" by (auto simp: copy_dsts_plain)
      then show ?thesis by (auto simp: ReadFile_iff pathOf_Join_rel stagedPath_def)
    qed
  qed
  have d: "node_at fs' p =
                   (if p = stagedPath f \<or> p = stagedPath f @ [''targets''] then Some Directory
                    else None)" if "prefix (stagedPath f) p" for p
    by (rule Commit_staging_empty [OF c assms(1) sf sd that])
  show ?thesis using a b d by blast
qed

theorem plain_commit_copies_staged_tree_witness:
  "names_ok demo_fs \<and>
   fst (fileSystemStore_Commit Map.empty False demo_hashes demo_store demo_fs) = None \<and>
   Lstat demo_fs (stagedDir demo_store) = Inr Directory \<and>
   ReadFile demo_fs (Join [stagedDir demo_store, ''targets/foo.txt'']) = Inr ''foo'' \<and>
   ReadFile (snd (fileSystemStore_Commit Map.empty False demo_hashes demo_store demo_fs))
     (Join [repoDir demo_store, ''targets/foo.txt'']) = Inr ''foo'' \<and>
   node_at (snd (fileSystemStore_Commit Map.empty False demo_hashes demo_store demo_fs))
     (stagedPath demo_store @ [''root.json'']) = None"
proof -
  let ?fs' = "snd (fileSystemStore_Commit Map.empty False demo_hashes demo_store demo_fs)"
  have h1: "names_ok demo_fs" by code_simp
  have h2: "fst (fileSystemStore_Commit Map.empty False demo_hashes demo_store demo_fs) = None"
    by code_simp
  then have h2': "fileSystemStore_Commit Map.empty False demo_hashes demo_store demo_fs = (None, ?fs')"
    by (simp add: prod_eq_iff)
  have h3: "Lstat demo_fs (stagedDir demo_store) = Inr Directory" by code_simp
  have h4: "ReadFile demo_fs (Join [stagedDir demo_store, join_sep [''targets'', ''foo.txt'']]) = Inr ''foo''"
    by code_simp
  have h5: "valid_path [''targets'', ''foo.txt''] \<and> [''targets'', ''foo.txt''] \<noteq> []" by code_simp
  have h6: "isTarget (join_sep [''targets'', ''foo.txt'']) \<longrightarrow>
      demo_hashes (join_sep [''targets'', ''foo.txt'']) \<noteq> None"
    by (simp add: demo_hashes_def)
  have h7: "prefix (stagedPath demo_store) (stagedPath demo_store @ [''root.json''])" by simp
  have h8: "stagedPath demo_store @ [''root.json''] \<noteq> stagedPath demo_store @ [''targets'']" by simp
  note t = plain_commit_copies_staged_tree [OF h1 h2' h3]
  have "ReadFile ?fs' (Join [repoDir demo_store, join_sep [''targets'', ''foo.txt'']]) = Inr ''foo''"
    using t [THEN conjunct1, rule_format, of "[''targets'', ''foo.txt'']" "''foo''"] h4 h5 h6 by blast
  moreover have "node_at ?fs' (stagedPath demo_store @ [''root.json'']) = None"
    using t [THEN conjunct2, THEN conjunct2, rule_format, OF h7] h8 by simp
  ultimately show ?thesis using h1 h2 h3 h4 by simp
qed

theorem plain_commit_counterexample:
  "fst (fileSystemStore_Commit Map.empty False demo_hashes demo_store demo_fs) = None \<and>
   ReadFile (snd (fileSystemStore_Commit Map.empty False demo_hashes demo_store demo_fs))
     (Join [repoDir demo_store, ''targets/bar.txt'']) = Inr ''bar'' \<and>
   ReadFile demo_fs (Join [stagedDir demo_store, ''targets/bar.txt'']) = Inl ENOENT"
  by code_simp

subsection \<open>What the garbage collection leaves\<close>

text \<open>
  C2 (as amended). After a commit that returns no error, a regular file that is still in
  the repository under a relative path beginning with \<^verbatim>\<open>targets\<close> is immutable (its
  removal failed), or its logical path is a key of the hash set: without consistent
  snapshots the path itself; with them, the file name has a \<^verbatim>\<open>.\<close> and the logical path
  is the directory joined with what follows the first \<^verbatim>\<open>.\<close>, but a name with nothing
  after that \<^verbatim>\<open>.\<close> is kept whatever the hash set.
\<close>

theorem garbage_collection_keeps_listed_targets:
  assumes "names_ok fs" and "hex_hashes hashes"
    and "fileSystemStore_Commit meta0 consistentSnapshot hashes f fs = (None, fs')"
    and "Lstat fs (stagedDir f) = Inr Directory"
    and "valid_path t" and "t \<noteq> []" and "isTarget (join_sep t)"
    and "ReadFile fs' (Join [repoDir f, join_sep t]) = Inr b"
  shows "repoPath f @ t \<in> set (immutable fs) \<or>
         (if consistentSnapshot
          then \<exists>h n. last t = h @ ''.'' @ n \<and> CHR ''.'' \<notin> set h \<and>
                     (n = [] \<or> hashes (Join [Dir (join_sep t), n]) \<noteq> None)
          else hashes (join_sep t) \<noteq> None)"
proof -
  have sd: "namei fs [] (stagedPath f) = Inr Directory"
    using assms(4) by (simp add: Lstat_def stagedPath_def)
  have r: "namei fs' [] (repoPath f @ t) = Inr (Regular b)"
    using assms(5,6,8) by (simp add: ReadFile_iff pathOf_Join_rel repoPath_def)
  have "needsRemoval consistentSnapshot hashes (join_sep t) = Inr False \<or>
        repoPath f @ t \<in> set (immutable fs)"
    by (rule Commit_gc_post [OF assms(3,1) hex_sep_free [OF assms(2)] sd r assms(6,7)])
  then show ?thesis
    using needsRemoval_snapshot_kept [of hashes "join_sep t"] Base_join_sep [OF assms(5,6)]
    by (cases consistentSnapshot) (auto simp: needsRemoval_plain)
qed

theorem garbage_collection_keeps_listed_targets_witness:
  "names_ok demo_fs \<and> hex_hashes demo_hashes \<and>
   fst (fileSystemStore_Commit Map.empty False demo_hashes demo_store demo_fs) = None \<and>
   Lstat demo_fs (stagedDir demo_store) = Inr Directory \<and>
   ReadFile (snd (fileSystemStore_Commit Map.empty False demo_hashes demo_store demo_fs))
     (Join [repoDir demo_store, ''targets/bar.txt'']) = Inr ''bar'' \<and>
   demo_hashes ''targets/bar.txt'' \<noteq> None"
proof -
  let ?fs' = "snd (fileSystemStore_Commit Map.empty False demo_hashes demo_store demo_fs)"
  have h1: "names_ok demo_fs" by code_simp
  have h3: "fst (fileSystemStore_Commit Map.empty False demo_hashes demo_store demo_fs) = None"
    by code_simp
  then have h3': "fileSystemStore_Commit Map.empty False demo_hashes demo_store demo_fs = (None, ?fs')"
    by (simp add: prod_eq_iff)
  have h4: "Lstat demo_fs (stagedDir demo_store) = Inr Directory" by code_simp
  have h5: "valid_path [''targets'', ''bar.txt'']" by code_simp
  have h7: "isTarget (join_sep [''targets'', ''bar.txt''])" by code_simp
  have h8: "ReadFile ?fs' (Join [repoDir demo_store, join_sep [''targets'', ''bar.txt'']]) = Inr ''bar''"
    by code_simp
  have h9: "repoPath demo_store @ [''targets'', ''bar.txt''] \<notin> set (immutable demo_fs)"
    by (simp add: demo_fs_def)
  have "demo_hashes (join_sep [''targets'', ''bar.txt'']) \<noteq> None"
    using garbage_collection_keeps_listed_targets [OF h1 hex_demo_hashes h3' h4 h5 _ h7 h8] h9
    by simp
  then show ?thesis using h1 hex_demo_hashes h3 h4 h8 by simp
qed

theorem garbage_collection_counterexample:
  "fst (fileSystemStore_Commit Map.empty True Map.empty demo_store dot_fs) = None \<and>
   ReadFile (snd (fileSystemStore_Commit Map.empty True Map.empty demo_store dot_fs))
     (Join [repoDir demo_store, ''targets/v1.'']) = Inr ''v1'' \<and>
   fst (fileSystemStore_Commit Map.empty False demo_hashes demo_store locked_fs) = None \<and>
   ReadFile (snd (fileSystemStore_Commit Map.empty False demo_hashes demo_store locked_fs))
     (Join [repoDir demo_store, ''targets/old.txt'']) = Inr ''old'' \<and>
   demo_hashes ''targets/old.txt'' = None"
  by code_simp

end
